theory Spec2Isabelle
  imports Main
begin

section \<open>Data model\<close>

text \<open>
  The engine of \<^verbatim>\<open>src/minesweeper.py\<close>: class \<^verbatim>\<open>MinesweeperWindow\<close> (board, mine
  placement, adjacency, left and right click, flood fill, win check, loss handling) and
  the validation of \<^verbatim>\<open>StartWindow.on_start_game\<close>. Widgets, style sheets and dialogs
  are presentation and are left out; \<^verbatim>\<open>_update_button\<close> only repaints a button (its
  list \<^verbatim>\<open>self.buttons\<close> has the shape of the board and is indexed with the same
  indices right after the board, so it raises nothing new) and
  \<^verbatim>\<open>_show_endgame_dialog\<close> only opens a dialog.
\<close>

text \<open>The exceptions the modelled code can raise.\<close>

datatype error = IndexError | ValueError

text \<open>One cell: the dict with the four keys of the board comprehension.\<close>

record cell =
  is_mine :: bool
  adjacent_mines :: int
  is_revealed :: bool
  is_flagged :: bool

text \<open>
  The attributes of a \<^verbatim>\<open>MinesweeperWindow\<close> that the engine reads and writes.
  \<^verbatim>\<open>info_label\<close> is the text of the label at the bottom of the window.
\<close>

record game =
  N :: int
  M :: int
  game_over :: bool
  board :: "cell list list"
  info_label :: string

text \<open>
  A method either returns, or raises with \<^verbatim>\<open>self\<close> as it is at the raise.
\<close>

type_synonym 'a result = "(error \<times> game) + 'a"

section \<open>Python lists\<close>

text \<open>
  \<^verbatim>\<open>xs[i]\<close> on a list of length \<open>len\<close>: an index in \<open>0 \<le> i < len\<close> is taken as it is,
  an index in \<open>-len \<le> i < 0\<close> counts from the end, any other raises IndexError.
\<close>

definition py_index :: "nat \<Rightarrow> int \<Rightarrow> nat option" where
  "py_index len i =
     (if 0 \<le> i \<and> i < int len then Some (nat i)
      else if - int len \<le> i \<and> i < 0 then Some (nat (i + int len))
      else None)"

text \<open>
  \<^verbatim>\<open>self.board[r][c]\<close>: the place of the dict it yields (row and column counted from
  0), or IndexError. The code keeps the reference (\<^verbatim>\<open>cell = self.board[row][col]\<close>) and
  reads and writes the dict through it; no two places hold the same dict, since the
  comprehension of \<^verbatim>\<open>__init__\<close> builds every dict and every row afresh.
\<close>

definition locate :: "cell list list \<Rightarrow> int \<Rightarrow> int \<Rightarrow> error + (nat \<times> nat)" where
  "locate b r c =
     (case py_index (length b) r of
        None \<Rightarrow> Inl IndexError
      | Some i \<Rightarrow>
          (case py_index (length (b ! i)) c of
             None \<Rightarrow> Inl IndexError
           | Some j \<Rightarrow> Inr (i, j)))"

fun cell_at :: "cell list list \<Rightarrow> nat \<times> nat \<Rightarrow> cell" where
  "cell_at b (i, j) = b ! i ! j"

fun cell_upd :: "cell list list \<Rightarrow> nat \<times> nat \<Rightarrow> (cell \<Rightarrow> cell) \<Rightarrow> cell list list" where
  "cell_upd b (i, j) f = b[i := (b ! i)[j := f (b ! i ! j)]]"

text \<open>\<^verbatim>\<open>range(a, b)\<close>.\<close>

definition py_range :: "int \<Rightarrow> int \<Rightarrow> int list" where
  "py_range a b = [a..b - 1]"

text \<open>
  \<^verbatim>\<open>for x in xs: body\<close>, where the body changes a state or raises; a raise ends
  the loop.
\<close>

fun for_each :: "'a list \<Rightarrow> ('a \<Rightarrow> 's \<Rightarrow> 'e + 's) \<Rightarrow> 's \<Rightarrow> 'e + 's" where
  "for_each [] body st = Inr st"
| "for_each (x # xs) body st =
     (case body x st of Inl e \<Rightarrow> Inl e | Inr st' \<Rightarrow> for_each xs body st')"

section \<open>Board generation\<close>

text \<open>
  \<^verbatim>\<open>[(r, c) for r in range(n) for c in range(n)]\<close>, also the order of every
  \<^verbatim>\<open>for r in range(self.N): for c in range(self.N)\<close> nest.
\<close>

definition all_positions :: "int \<Rightarrow> (int \<times> int) list" where
  "all_positions n = [(r, c). r \<leftarrow> py_range 0 n, c \<leftarrow> py_range 0 n]"

text \<open>
  What \<^verbatim>\<open>random.sample(population, k)\<close> may return when it returns: \<open>k\<close> elements
  drawn from the population without replacement. (The populations here have no
  repeated element, so the drawn elements are distinct.)
\<close>

definition is_sample :: "'a list \<Rightarrow> int \<Rightarrow> 'a list \<Rightarrow> bool" where
  "is_sample population k xs \<longleftrightarrow>
     0 \<le> k \<and> length xs = nat k \<and> distinct xs \<and> set xs \<subseteq> set population"

text \<open>
  \<^verbatim>\<open>_place_mines\<close>, with the body of its loop first. The list the call of \<^verbatim>\<open>random.sample\<close> returns is the parameter
  \<open>mine_positions\<close>; \<^verbatim>\<open>random.sample\<close> raises ValueError when the sample is larger than
  the population or negative.
\<close>

definition place_mine :: "int \<times> int \<Rightarrow> game \<Rightarrow> game result" where
  "place_mine = (\<lambda>(r, c) s.
     case locate (board s) r c of
       Inl e \<Rightarrow> Inl (e, s)
     | Inr p \<Rightarrow> Inr (s\<lparr>board := cell_upd (board s) p (\<lambda>cl. cl\<lparr>is_mine := True\<rparr>)\<rparr>))"

definition place_mines :: "game \<Rightarrow> (int \<times> int) list \<Rightarrow> game result" where
  "place_mines s mine_positions =
     (if M s < 0 \<or> int (length (all_positions (N s))) < M s then Inl (ValueError, s)
      else for_each mine_positions place_mine s)"

text \<open>
  The two inner loops of \<^verbatim>\<open>_calculate_adjacency\<close> and of \<^verbatim>\<open>_flood_fill\<close>:
  \<^verbatim>\<open>for nr in range(max(0, r - 1), min(self.N, r + 2)):
      for nc in range(max(0, c - 1), min(self.N, c + 2))\<close>.
\<close>

definition neighbours :: "int \<Rightarrow> int \<Rightarrow> int \<Rightarrow> (int \<times> int) list" where
  "neighbours n r c =
     [(nr, nc). nr \<leftarrow> py_range (max 0 (r - 1)) (min n (r + 2)),
                nc \<leftarrow> py_range (max 0 (c - 1)) (min n (c + 2))]"

text \<open>
  The counting loop of \<^verbatim>\<open>_calculate_adjacency\<close> for the cell at \<open>(r, c)\<close>, with its
  body first.
\<close>

definition count_neighbour :: "game \<Rightarrow> int \<times> int \<Rightarrow> int \<Rightarrow> int result" where
  "count_neighbour s = (\<lambda>(nr, nc) count.
     case locate (board s) nr nc of
       Inl e \<Rightarrow> Inl (e, s)
     | Inr q \<Rightarrow> Inr (if is_mine (cell_at (board s) q) then count + 1 else count))"

definition count_adjacent :: "game \<Rightarrow> int \<Rightarrow> int \<Rightarrow> int result" where
  "count_adjacent s r c = for_each (neighbours (N s) r c) (count_neighbour s) 0"

text \<open>
  \<^verbatim>\<open>_calculate_adjacency\<close>, with the body of its loops first. The code indexes \<^verbatim>\<open>self.board[r][c]\<close> for the test and
  again for the assignment; the second indexing is the first one repeated on a board
  of the same shape.
\<close>

definition adjacency_cell :: "int \<times> int \<Rightarrow> game \<Rightarrow> game result" where
  "adjacency_cell = (\<lambda>(r, c) s.
     case locate (board s) r c of
       Inl e \<Rightarrow> Inl (e, s)
     | Inr p \<Rightarrow>
         if is_mine (cell_at (board s) p) then
           Inr (s\<lparr>board := cell_upd (board s) p (\<lambda>cl. cl\<lparr>adjacent_mines := - 1\<rparr>)\<rparr>)
         else
           (case count_adjacent s r c of
              Inl x \<Rightarrow> Inl x
            | Inr count \<Rightarrow>
                Inr (s\<lparr>board := cell_upd (board s) p (\<lambda>cl. cl\<lparr>adjacent_mines := count\<rparr>)\<rparr>)))"

definition calculate_adjacency :: "game \<Rightarrow> game result" where
  "calculate_adjacency s = for_each (all_positions (N s)) adjacency_cell s"

text \<open>The cell every place of the fresh board holds.\<close>

definition blank_cell :: cell where
  "blank_cell = \<lparr>is_mine = False, adjacent_mines = 0, is_revealed = False, is_flagged = False\<rparr>"

text \<open>
  \<^verbatim>\<open>MinesweeperWindow.__init__\<close>, with the list \<^verbatim>\<open>random.sample\<close> returns as third
  argument. \<^verbatim>\<open>init_ui\<close> sets the label; before it the object has no label (here the
  empty text).
\<close>

definition MinesweeperWindow_init :: "int \<Rightarrow> int \<Rightarrow> (int \<times> int) list \<Rightarrow> game result" where
  "MinesweeperWindow_init n m mine_positions =
     (let s = \<lparr>N = n, M = m, game_over = False,
               board = replicate (nat n) (replicate (nat n) blank_cell),
               info_label = []\<rparr>
      in case place_mines s mine_positions of
           Inl x \<Rightarrow> Inl x
         | Inr s1 \<Rightarrow>
             (case calculate_adjacency s1 of
                Inl x \<Rightarrow> Inl x
              | Inr s2 \<Rightarrow> Inr (s2\<lparr>info_label := ''Be careful!''\<rparr>)))"

section \<open>The engine\<close>

text \<open>
  One neighbour in the body of \<^verbatim>\<open>_flood_fill\<close>'s inner loops. The state of the loops
  is \<^verbatim>\<open>self\<close> and the stack; the head of the list is the top of the stack (the end of
  the Python list, where \<^verbatim>\<open>append\<close> and \<^verbatim>\<open>pop\<close> work).
\<close>

definition flood_neighbour ::
  "int \<times> int \<Rightarrow> game \<times> (int \<times> int) list \<Rightarrow> (error \<times> game) + game \<times> (int \<times> int) list" where
  "flood_neighbour = (\<lambda>(nr, nc) (s, stack).
     case locate (board s) nr nc of
       Inl e \<Rightarrow> Inl (e, s)
     | Inr q \<Rightarrow>
         if \<not> is_revealed (cell_at (board s) q) \<and> \<not> is_flagged (cell_at (board s) q)
            \<and> \<not> is_mine (cell_at (board s) q)
         then
           (let s' = s\<lparr>board := cell_upd (board s) q (\<lambda>cl. cl\<lparr>is_revealed := True\<rparr>)\<rparr>
            in Inr (s', if adjacent_mines (cell_at (board s') q) = 0 then (nr, nc) # stack
                        else stack))
         else Inr (s, stack))"

text \<open>
  The number of cells of a board with a property, and the number of those that are not
  revealed.
\<close>

definition count_cells :: "(cell \<Rightarrow> bool) \<Rightarrow> cell list list \<Rightarrow> nat" where
  "count_cells P b = (\<Sum>row\<leftarrow>b. length (filter P row))"

definition unrevealed :: "cell list list \<Rightarrow> nat" where
  "unrevealed b = count_cells (\<lambda>cl. \<not> is_revealed cl) b"

lemma py_index_less: "py_index len i = Some k \<Longrightarrow> k < len"
  by (auto simp: py_index_def split: if_splits)

lemma locate_bounds: "locate b r c = Inr (i, j) \<Longrightarrow> i < length b \<and> j < length (b ! i)"
  by (auto simp: locate_def split: option.splits dest: py_index_less)

lemma filter_update_length:
  "j < length xs \<Longrightarrow>
     length (filter P (xs[j := v])) + (if P (xs ! j) then 1 else 0)
       = length (filter P xs) + (if P v then 1 else 0)"
proof (induction xs arbitrary: j)
  case Nil
  then show ?case by simp
next
  case (Cons x xs)
  then show ?case by (cases j) auto
qed

lemma sum_list_map_update:
  fixes g :: "'a \<Rightarrow> nat"
  shows "i < length b \<Longrightarrow>
     (\<Sum>row\<leftarrow>b[i := r']. g row) + g (b ! i) = (\<Sum>row\<leftarrow>b. g row) + g r'"
proof (induction b arbitrary: i)
  case Nil
  then show ?case by simp
next
  case (Cons x xs)
  then show ?case by (cases i) auto
qed

lemma count_cells_cell_upd:
  assumes "i < length b" and "j < length (b ! i)"
  shows "count_cells P (cell_upd b (i, j) f) + (if P (b ! i ! j) then 1 else 0)
           = count_cells P b + (if P (f (b ! i ! j)) then 1 else 0)"
proof -
  let ?g = "\<lambda>row. length (filter P row)"
  have row: "?g ((b ! i)[j := f (b ! i ! j)]) + (if P (b ! i ! j) then 1 else 0)
               = ?g (b ! i) + (if P (f (b ! i ! j)) then 1 else 0)"
    using assms(2) by (rule filter_update_length)
  have "(\<Sum>row\<leftarrow>b[i := (b ! i)[j := f (b ! i ! j)]]. ?g row) + ?g (b ! i)
          = (\<Sum>row\<leftarrow>b. ?g row) + ?g ((b ! i)[j := f (b ! i ! j)])"
    using assms(1) by (rule sum_list_map_update)
  with row show ?thesis
    unfolding count_cells_def cell_upd.simps by linarith
qed

lemma unrevealed_cell_upd:
  assumes "i < length b" and "j < length (b ! i)"
  shows "unrevealed (cell_upd b (i, j) f) + (if \<not> is_revealed (b ! i ! j) then 1 else 0)
           = unrevealed b + (if \<not> is_revealed (f (b ! i ! j)) then 1 else 0)"
  unfolding unrevealed_def using assms by (rule count_cells_cell_upd)

lemma flood_neighbour_measure:
  assumes "flood_neighbour q (s, stack) = Inr (s', stack')"
  shows "unrevealed (board s') + length stack' \<le> unrevealed (board s) + length stack
           \<and> length stack \<le> length stack'"
proof -
  obtain nr nc where q: "q = (nr, nc)" by (cases q)
  show ?thesis
  proof (cases "locate (board s) nr nc")
    case (Inl e)
    with assms q show ?thesis by (simp add: flood_neighbour_def)
  next
    case (Inr p)
    obtain i j where p: "p = (i, j)" by (cases p)
    from Inr p have b: "i < length (board s)" "j < length (board s ! i)"
      using locate_bounds by blast+
    show ?thesis
    proof (cases "\<not> is_revealed (board s ! i ! j) \<and> \<not> is_flagged (board s ! i ! j)
                    \<and> \<not> is_mine (board s ! i ! j)")
      case True
      from unrevealed_cell_upd [OF b, of "\<lambda>cl. cl\<lparr>is_revealed := True\<rparr>"] True
      have "unrevealed (cell_upd (board s) (i, j) (\<lambda>cl. cl\<lparr>is_revealed := True\<rparr>)) + 1
              = unrevealed (board s)"
        by simp
      with assms q Inr p True show ?thesis
        by (auto simp: flood_neighbour_def Let_def split: if_splits)
    next
      case False
      with assms q Inr p show ?thesis
        by (auto simp: flood_neighbour_def)
    qed
  qed
qed

lemma flood_neighbours_measure:
  "for_each qs flood_neighbour (s, stack) = Inr (s', stack') \<Longrightarrow>
     unrevealed (board s') + length stack' \<le> unrevealed (board s) + length stack
       \<and> length stack \<le> length stack'"
proof (induction qs arbitrary: s stack)
  case Nil
  then show ?case by simp
next
  case (Cons q qs)
  from Cons.prems obtain s1 stack1 where
    one: "flood_neighbour q (s, stack) = Inr (s1, stack1)" and
    rest: "for_each qs flood_neighbour (s1, stack1) = Inr (s', stack')"
    by (auto split: sum.splits)
  from flood_neighbour_measure [OF one] Cons.IH [OF rest] show ?case by linarith
qed

text \<open>
  The \<^verbatim>\<open>while stack:\<close> loop of \<^verbatim>\<open>_flood_fill\<close>. The third argument is not in the
  code: it lists the cells popped so far, oldest first, so that the number of visits
  can be stated. Every push reveals a cell, so the loop ends.
\<close>

function flood_loop ::
  "game \<Rightarrow> (int \<times> int) list \<Rightarrow> (int \<times> int) list
     \<Rightarrow> (error \<times> game) + game \<times> (int \<times> int) list" where
  "flood_loop s [] visited = Inr (s, visited)"
| "flood_loop s ((r, c) # stack) visited =
     (case for_each (neighbours (N s) r c) flood_neighbour (s, stack) of
        Inl x \<Rightarrow> Inl x
      | Inr (s', stack') \<Rightarrow> flood_loop s' stack' (visited @ [(r, c)]))"
  by pat_completeness auto
termination
proof (relation "inv_image (less_than <*lex*> less_than)
                   (\<lambda>(s, stack, visited). (unrevealed (board s), length stack))")
  show "wf (inv_image (less_than <*lex*> less_than)
              (\<lambda>(s, stack, visited). (unrevealed (board s), length stack)))"
    by (intro wf_inv_image wf_lex_prod wf_less_than)
next
  fix s r c stack visited x2 s' stack'
  assume "for_each (neighbours (N s) r c) flood_neighbour (s, stack) = Inr x2"
    and "(s', stack') = x2"
  then have "for_each (neighbours (N s) r c) flood_neighbour (s, stack) = Inr (s', stack')"
    by simp
  from flood_neighbours_measure [OF this]
  show "((s', stack', visited @ [(r, c)]), s, (r, c) # stack, visited)
          \<in> inv_image (less_than <*lex*> less_than)
               (\<lambda>(s, stack, visited). (unrevealed (board s), length stack))"
    by auto
qed

text \<open>\<^verbatim>\<open>_flood_fill\<close>.\<close>

definition flood_fill :: "game \<Rightarrow> int \<Rightarrow> int \<Rightarrow> game result" where
  "flood_fill s row col =
     (case flood_loop s [(row, col)] [] of Inl x \<Rightarrow> Inl x | Inr (s', visited) \<Rightarrow> Inr s')"

text \<open>\<^verbatim>\<open>_check_win\<close>: the two loops, left at the first unrevealed cell without a mine.\<close>

fun check_win_loop :: "game \<Rightarrow> (int \<times> int) list \<Rightarrow> bool result" where
  "check_win_loop s [] = Inr True"
| "check_win_loop s ((r, c) # ps) =
     (case locate (board s) r c of
        Inl e \<Rightarrow> Inl (e, s)
      | Inr p \<Rightarrow>
          if \<not> is_mine (cell_at (board s) p) \<and> \<not> is_revealed (cell_at (board s) p)
          then Inr False
          else check_win_loop s ps)"

definition check_win :: "game \<Rightarrow> bool result" where
  "check_win s = check_win_loop s (all_positions (N s))"

text \<open>\<^verbatim>\<open>_show_all_mines\<close>, with the body of its loops first.\<close>

definition show_mine :: "int \<times> int \<Rightarrow> game \<Rightarrow> game result" where
  "show_mine = (\<lambda>(r, c) s.
     case locate (board s) r c of
       Inl e \<Rightarrow> Inl (e, s)
     | Inr p \<Rightarrow>
         if is_mine (cell_at (board s) p)
         then Inr (s\<lparr>board := cell_upd (board s) p (\<lambda>cl. cl\<lparr>is_revealed := True\<rparr>)\<rparr>)
         else Inr s)"

definition show_all_mines :: "game \<Rightarrow> game result" where
  "show_all_mines s = for_each (all_positions (N s)) show_mine s"

text \<open>\<^verbatim>\<open>left_click\<close>.\<close>

definition left_click :: "game \<Rightarrow> int \<Rightarrow> int \<Rightarrow> game result" where
  "left_click s row col =
     (if game_over s then Inr s
      else
        case locate (board s) row col of
          Inl e \<Rightarrow> Inl (e, s)
        | Inr p \<Rightarrow>
            if is_flagged (cell_at (board s) p) \<or> is_revealed (cell_at (board s) p) then Inr s
            else
              (let s1 = s\<lparr>board := cell_upd (board s) p (\<lambda>cl. cl\<lparr>is_revealed := True\<rparr>)\<rparr>
               in if is_mine (cell_at (board s1) p) then
                    show_all_mines
                      (s1\<lparr>info_label := ''You hit a mine! Game Over!'', game_over := True\<rparr>)
                  else
                    (case (if adjacent_mines (cell_at (board s1) p) = 0
                           then flood_fill s1 row col else Inr s1) of
                       Inl x \<Rightarrow> Inl x
                     | Inr s2 \<Rightarrow>
                         (case check_win s2 of
                            Inl x \<Rightarrow> Inl x
                          | Inr won \<Rightarrow>
                              if won then
                                Inr (s2\<lparr>info_label := ''Congratulations, you won!'',
                                        game_over := True\<rparr>)
                              else Inr s2))))"

text \<open>\<^verbatim>\<open>right_click\<close>.\<close>

definition right_click :: "game \<Rightarrow> int \<Rightarrow> int \<Rightarrow> game result" where
  "right_click s row col =
     (if game_over s then Inr s
      else
        case locate (board s) row col of
          Inl e \<Rightarrow> Inl (e, s)
        | Inr p \<Rightarrow>
            if is_revealed (cell_at (board s) p) then Inr s
            else Inr (s\<lparr>board := cell_upd (board s) p (\<lambda>cl. cl\<lparr>is_flagged := \<not> is_flagged cl\<rparr>)\<rparr>))"

text \<open>
  The outcome of the spec, read off the state: the code keeps \<^verbatim>\<open>game_over\<close> and
  tells a win from a loss by the text it puts into the label.
\<close>

datatype outcome = Continue | Won | Lost

definition outcome_of :: "game \<Rightarrow> outcome" where
  "outcome_of s =
     (if \<not> game_over s then Continue
      else if info_label s = ''You hit a mine! Game Over!'' then Lost
      else if info_label s = ''Congratulations, you won!'' then Won
      else Continue)"

section \<open>The start window\<close>

text \<open>
  The attributes of \<^verbatim>\<open>StartWindow\<close> that \<^verbatim>\<open>on_start_game\<close> reads and writes: the
  texts of the two line edits, the text of the error label, and the game window it
  opens (there is none before).
\<close>

record start_window =
  lineedit_n :: string
  lineedit_m :: string
  error_label :: string
  minesweeper_window :: "game option"

text \<open>
  \<^verbatim>\<open>on_start_game\<close>. Python's \<^verbatim>\<open>int\<close> on a text is the parameter \<open>py_int\<close> (None where
  it raises ValueError); the list \<^verbatim>\<open>random.sample\<close> returns in the constructor is
  the parameter \<open>mine_positions\<close>. An exception of the constructor leaves through
  \<^verbatim>\<open>on_start_game\<close>.
\<close>

definition on_start_game ::
  "(string \<Rightarrow> int option) \<Rightarrow> (int \<times> int) list \<Rightarrow> start_window \<Rightarrow> error + start_window" where
  "on_start_game py_int mine_positions w =
     (case py_int (lineedit_n w) of
        None \<Rightarrow> Inr (w\<lparr>error_label := ''Please enter valid integers!''\<rparr>)
      | Some n \<Rightarrow>
          (case py_int (lineedit_m w) of
             None \<Rightarrow> Inr (w\<lparr>error_label := ''Please enter valid integers!''\<rparr>)
           | Some m \<Rightarrow>
               if n \<le> 0 then Inr (w\<lparr>error_label := ''N must be > 0!''\<rparr>)
               else if m < 0 \<or> m \<ge> n * n then
                 Inr (w\<lparr>error_label := ''Invalid range for M! (0 <= M < N*N)''\<rparr>)
               else
                 (case MinesweeperWindow_init n m mine_positions of
                    Inl (e, s) \<Rightarrow> Inl e
                  | Inr g \<Rightarrow> Inr (w\<lparr>minesweeper_window := Some g\<rparr>))))"

section \<open>Boards of the right shape\<close>

text \<open>
  \<^verbatim>\<open>__init__\<close> builds \<open>N\<close> rows of \<open>N\<close> cells and nothing resizes them. A position is in
  the grid when both coordinates are in \<open>0 \<le> \<dots> < N\<close>; \<open>cell_of\<close> reads the cell at
  such a position.
\<close>

definition in_grid :: "int \<Rightarrow> int \<times> int \<Rightarrow> bool" where
  "in_grid n p \<longleftrightarrow> 0 \<le> fst p \<and> fst p < n \<and> 0 \<le> snd p \<and> snd p < n"

definition well_formed :: "game \<Rightarrow> bool" where
  "well_formed s \<longleftrightarrow>
     length (board s) = nat (N s) \<and> (\<forall>row \<in> set (board s). length row = nat (N s))"

definition cell_of :: "game \<Rightarrow> int \<times> int \<Rightarrow> cell" where
  "cell_of s p = board s ! nat (fst p) ! nat (snd p)"

lemma all_positions_product: "all_positions n = List.product (py_range 0 n) (py_range 0 n)"
  by (simp add: all_positions_def product_concat_map)

lemma set_all_positions: "p \<in> set (all_positions n) \<longleftrightarrow> in_grid n p"
  by (cases p) (auto simp: all_positions_product py_range_def in_grid_def)

lemma distinct_all_positions: "distinct (all_positions n)"
  by (simp add: all_positions_product py_range_def distinct_product)

lemma length_all_positions: "length (all_positions n) = nat n * nat n"
  by (simp add: all_positions_product py_range_def)

lemma well_formed_row: "well_formed s \<Longrightarrow> i < nat (N s) \<Longrightarrow> length (board s ! i) = nat (N s)"
  by (simp add: well_formed_def)

lemma locate_in_grid:
  "well_formed s \<Longrightarrow> in_grid (N s) (r, c) \<Longrightarrow> locate (board s) r c = Inr (nat r, nat c)"
  by (auto simp: locate_def py_index_def in_grid_def well_formed_def)

lemma well_formed_nth:
  "well_formed s \<longleftrightarrow>
     length (board s) = nat (N s) \<and> (\<forall>i < length (board s). length (board s ! i) = nat (N s))"
  by (simp add: well_formed_def all_set_conv_all_nth)

lemma length_row_cell_upd: "length (cell_upd b p f ! k) = length (b ! k)"
proof (cases p)
  case (Pair i j)
  show ?thesis
    unfolding Pair
    by (cases "i < length b"; cases "i = k") (simp_all add: list_update_beyond)
qed

lemma well_formed_cell_upd [simp]:
  "well_formed (s\<lparr>board := cell_upd (board s) p f\<rparr>) = well_formed s"
  by (cases p) (simp add: well_formed_nth length_row_cell_upd del: cell_upd.simps, simp)

lemma cell_of_cell_upd:
  assumes "well_formed s" "in_grid (N s) p" "in_grid (N s) q"
  shows "cell_of (s\<lparr>board := cell_upd (board s) (nat (fst p), nat (snd p)) f\<rparr>) q
           = (if q = p then f (cell_of s p) else cell_of s q)"
  using assms
  by (cases p; cases q) (auto simp: cell_of_def in_grid_def well_formed_def nth_list_update)

lemma cell_at_cell_of: "cell_at (board s) (nat r, nat c) = cell_of s (r, c)"
  by (simp add: cell_of_def)

declare cell_at.simps [simp del] cell_upd.simps [simp del]

section \<open>Terminal states\<close>

text \<open>
  C7. Once \<^verbatim>\<open>game_over\<close> is set, a left click and a right click at any coordinates
  return at once with the state as it was: every field of every cell, the flag
  \<^verbatim>\<open>game_over\<close> and all the rest are the same, so the game stays over.
\<close>

theorem game_over_immutable:
  assumes "game_over s"
  shows "left_click s row col = Inr s \<and> right_click s row col = Inr s"
  using assms by (simp add: left_click_def right_click_def)

theorem game_over_immutable_witness:
  "game_over \<lparr>N = 1, M = 0, game_over = True,
              board = [[\<lparr>is_mine = False, adjacent_mines = 0, is_revealed = True,
                         is_flagged = False\<rparr>]],
              info_label = ''Congratulations, you won!''\<rparr>
   \<and> left_click \<lparr>N = 1, M = 0, game_over = True,
              board = [[\<lparr>is_mine = False, adjacent_mines = 0, is_revealed = True,
                         is_flagged = False\<rparr>]],
              info_label = ''Congratulations, you won!''\<rparr> 0 0
       = Inr \<lparr>N = 1, M = 0, game_over = True,
              board = [[\<lparr>is_mine = False, adjacent_mines = 0, is_revealed = True,
                         is_flagged = False\<rparr>]],
              info_label = ''Congratulations, you won!''\<rparr>
   \<and> right_click \<lparr>N = 1, M = 0, game_over = True,
              board = [[\<lparr>is_mine = False, adjacent_mines = 0, is_revealed = True,
                         is_flagged = False\<rparr>]],
              info_label = ''Congratulations, you won!''\<rparr> 0 0
       = Inr \<lparr>N = 1, M = 0, game_over = True,
              board = [[\<lparr>is_mine = False, adjacent_mines = 0, is_revealed = True,
                         is_flagged = False\<rparr>]],
              info_label = ''Congratulations, you won!''\<rparr>"
  using game_over_immutable
    [of "\<lparr>N = 1, M = 0, game_over = True,
              board = [[\<lparr>is_mine = False, adjacent_mines = 0, is_revealed = True,
                         is_flagged = False\<rparr>]],
              info_label = ''Congratulations, you won!''\<rparr>" 0 0]
  by simp

section \<open>Hitting a mine\<close>

lemma show_mine_in_grid:
  assumes "well_formed s" and "in_grid (N s) p"
  shows "show_mine p s =
           Inr (if is_mine (cell_of s p)
                then s\<lparr>board := cell_upd (board s) (nat (fst p), nat (snd p))
                                   (\<lambda>cl. cl\<lparr>is_revealed := True\<rparr>)\<rparr>
                else s)"
  using locate_in_grid [OF assms(1), of "fst p" "snd p"] assms(2)
  by (cases p) (simp add: show_mine_def cell_at_cell_of)

lemma show_all_mines_loop:
  assumes "well_formed s" and "\<forall>p \<in> set ps. in_grid (N s) p" and "distinct ps"
  shows "\<exists>b'. for_each ps show_mine s = Inr (s\<lparr>board := b'\<rparr>)
         \<and> well_formed (s\<lparr>board := b'\<rparr>)
         \<and> (\<forall>q. in_grid (N s) q \<longrightarrow>
               cell_of (s\<lparr>board := b'\<rparr>) q
                 = (if q \<in> set ps \<and> is_mine (cell_of s q)
                    then (cell_of s q)\<lparr>is_revealed := True\<rparr> else cell_of s q))"
  using assms
proof (induction ps arbitrary: s)
  case Nil
  have "s\<lparr>board := board s\<rparr> = s" by simp
  with Nil show ?case
    by (intro exI [of _ "board s"]) simp
next
  case (Cons p ps)
  from Cons.prems have pg: "in_grid (N s) p" by simp
  let ?s1 = "if is_mine (cell_of s p)
             then s\<lparr>board := cell_upd (board s) (nat (fst p), nat (snd p))
                                (\<lambda>cl. cl\<lparr>is_revealed := True\<rparr>)\<rparr>
             else s"
  have step: "show_mine p s = Inr ?s1"
    using Cons.prems(1) pg by (rule show_mine_in_grid)
  have wf1: "well_formed ?s1" using Cons.prems(1) by simp
  have n1: "N ?s1 = N s" by simp
  have c1: "cell_of ?s1 q = (if q = p \<and> is_mine (cell_of s q)
              then (cell_of s q)\<lparr>is_revealed := True\<rparr> else cell_of s q)"
    if "in_grid (N s) q" for q
    using cell_of_cell_upd [OF Cons.prems(1) pg that] by auto
  have g1: "\<forall>p \<in> set ps. in_grid (N ?s1) p" using Cons.prems(2) by simp
  have d1: "distinct ps" using Cons.prems(3) by simp
  from Cons.IH [OF wf1 g1 d1] obtain b' where
    run: "for_each ps show_mine ?s1 = Inr (?s1\<lparr>board := b'\<rparr>)"
    and wf': "well_formed (?s1\<lparr>board := b'\<rparr>)"
    and cells: "\<forall>q. in_grid (N ?s1) q \<longrightarrow>
               cell_of (?s1\<lparr>board := b'\<rparr>) q
                 = (if q \<in> set ps \<and> is_mine (cell_of ?s1 q)
                    then (cell_of ?s1 q)\<lparr>is_revealed := True\<rparr> else cell_of ?s1 q)"
    by blast
  have eq: "?s1\<lparr>board := b'\<rparr> = s\<lparr>board := b'\<rparr>" by simp
  have "for_each (p # ps) show_mine s = Inr (s\<lparr>board := b'\<rparr>)"
    using run step unfolding eq by simp
  moreover have "well_formed (s\<lparr>board := b'\<rparr>)" using wf' unfolding eq .
  moreover have "cell_of (s\<lparr>board := b'\<rparr>) q
                 = (if q \<in> set (p # ps) \<and> is_mine (cell_of s q)
                    then (cell_of s q)\<lparr>is_revealed := True\<rparr> else cell_of s q)"
    if "in_grid (N s) q" for q
  proof -
    from that have "in_grid (N ?s1) q" by simp
    with cells have "cell_of (?s1\<lparr>board := b'\<rparr>) q
                 = (if q \<in> set ps \<and> is_mine (cell_of ?s1 q)
                    then (cell_of ?s1 q)\<lparr>is_revealed := True\<rparr> else cell_of ?s1 q)"
      by blast
    then show ?thesis
      unfolding eq c1 [OF that] using Cons.prems(3) by auto
  qed
  ultimately show ?case by blast
qed

lemma cell_of_fields [simp]:
  "cell_of (s\<lparr>game_over := g\<rparr>) = cell_of s"
  "cell_of (s\<lparr>info_label := l\<rparr>) = cell_of s"
  by (simp_all add: cell_of_def fun_eq_iff)

lemma well_formed_fields [simp]:
  "well_formed (s\<lparr>game_over := g\<rparr>) = well_formed s"
  "well_formed (s\<lparr>info_label := l\<rparr>) = well_formed s"
  by (simp_all add: well_formed_def)

text \<open>
  C3. In a game in progress, a left click on a mine that is neither flagged nor
  revealed returns with \<^verbatim>\<open>game_over\<close> set and the label of a loss; every mine of the
  board is then revealed, flagged or not, and every cell without a mine is as it was
  (so no cell without a mine is revealed by the loss, flagged or not).
\<close>

theorem left_click_mine:
  assumes wf: "well_formed s" and run: "\<not> game_over s"
    and pg: "in_grid (N s) (row, col)"
    and mine: "is_mine (cell_of s (row, col))"
    and unflagged: "\<not> is_flagged (cell_of s (row, col))"
    and unrevealed: "\<not> is_revealed (cell_of s (row, col))"
  shows "\<exists>s'. left_click s row col = Inr s' \<and> game_over s' \<and> outcome_of s' = Lost
           \<and> N s' = N s
           \<and> (\<forall>q. in_grid (N s) q \<longrightarrow>
                 cell_of s' q = (if is_mine (cell_of s q)
                                 then (cell_of s q)\<lparr>is_revealed := True\<rparr> else cell_of s q))"
proof -
  define s1 where "s1 = s\<lparr>board := cell_upd (board s) (nat row, nat col)
                                    (\<lambda>cl. cl\<lparr>is_revealed := True\<rparr>)\<rparr>"
  define s2 where "s2 = s1\<lparr>info_label := ''You hit a mine! Game Over!'', game_over := True\<rparr>"
  have loc: "locate (board s) row col = Inr (nat row, nat col)"
    using wf pg by (rule locate_in_grid)
  have c1: "cell_of s1 q = (if q = (row, col) then (cell_of s q)\<lparr>is_revealed := True\<rparr>
                            else cell_of s q)" if "in_grid (N s) q" for q
    using cell_of_cell_upd [OF wf pg that] by (simp add: s1_def)
  have wf2: "well_formed s2" using wf by (simp add: s2_def s1_def)
  have n2: "N s2 = N s" by (simp add: s2_def s1_def)
  have c2: "cell_of s2 = cell_of s1" by (simp add: s2_def)
  have "\<forall>p \<in> set (all_positions (N s2)). in_grid (N s2) p"
    by (simp add: set_all_positions)
  from show_all_mines_loop [OF wf2 this distinct_all_positions] obtain b' where
    loop: "show_all_mines s2 = Inr (s2\<lparr>board := b'\<rparr>)"
    and cells: "\<forall>q. in_grid (N s2) q \<longrightarrow>
               cell_of (s2\<lparr>board := b'\<rparr>) q
                 = (if q \<in> set (all_positions (N s2)) \<and> is_mine (cell_of s2 q)
                    then (cell_of s2 q)\<lparr>is_revealed := True\<rparr> else cell_of s2 q)"
    unfolding show_all_mines_def by blast
  have click: "left_click s row col = Inr (s2\<lparr>board := b'\<rparr>)"
    using run loc mine unflagged unrevealed pg c1 [OF pg] loop
    by (simp add: left_click_def cell_at_cell_of Let_def s1_def [symmetric] s2_def [symmetric])
  have "cell_of (s2\<lparr>board := b'\<rparr>) q
          = (if is_mine (cell_of s q) then (cell_of s q)\<lparr>is_revealed := True\<rparr>
             else cell_of s q)" if "in_grid (N s) q" for q
    using cells [rule_format, of q] that mine
    by (auto simp: n2 c2 c1 [OF that] set_all_positions)
  moreover have "game_over (s2\<lparr>board := b'\<rparr>)" "N (s2\<lparr>board := b'\<rparr>) = N s"
    "outcome_of (s2\<lparr>board := b'\<rparr>) = Lost"
    by (simp_all add: s2_def s1_def outcome_of_def)
  ultimately show ?thesis using click by blast
qed

text \<open>
  A board of side 2 with mines at (0, 0) and (1, 1), the mine at (1, 1) and the safe
  cell at (0, 1) flagged.
\<close>

definition loss_example :: game where
  "loss_example =
     \<lparr>N = 2, M = 2, game_over = False,
      board =
        [[\<lparr>is_mine = True, adjacent_mines = - 1, is_revealed = False, is_flagged = False\<rparr>,
          \<lparr>is_mine = False, adjacent_mines = 2, is_revealed = False, is_flagged = True\<rparr>],
         [\<lparr>is_mine = False, adjacent_mines = 2, is_revealed = False, is_flagged = False\<rparr>,
          \<lparr>is_mine = True, adjacent_mines = - 1, is_revealed = False, is_flagged = True\<rparr>]],
      info_label = ''Be careful!''\<rparr>"

theorem left_click_mine_witness:
  "well_formed loss_example \<and> \<not> game_over loss_example
   \<and> in_grid (N loss_example) (0, 0)
   \<and> is_mine (cell_of loss_example (0, 0))
   \<and> \<not> is_flagged (cell_of loss_example (0, 0))
   \<and> \<not> is_revealed (cell_of loss_example (0, 0))
   \<and> (\<exists>s'. left_click loss_example 0 0 = Inr s' \<and> game_over s' \<and> outcome_of s' = Lost
          \<and> is_revealed (cell_of s' (0, 0))
          \<and> is_revealed (cell_of s' (1, 1)) \<and> is_flagged (cell_of s' (1, 1))
          \<and> \<not> is_revealed (cell_of s' (0, 1)) \<and> is_flagged (cell_of s' (0, 1))
          \<and> \<not> is_revealed (cell_of s' (1, 0)))"
proof -
  have h: "well_formed loss_example" "\<not> game_over loss_example"
    "in_grid (N loss_example) (0, 0)" "is_mine (cell_of loss_example (0, 0))"
    "\<not> is_flagged (cell_of loss_example (0, 0))"
    "\<not> is_revealed (cell_of loss_example (0, 0))"
    by (simp_all add: loss_example_def well_formed_def in_grid_def cell_of_def)
  have g: "in_grid (N loss_example) (0, 0)" "in_grid (N loss_example) (1, 1)"
    "in_grid (N loss_example) (0, 1)" "in_grid (N loss_example) (1, 0)"
    by (simp_all add: loss_example_def in_grid_def)
  have c: "is_mine (cell_of loss_example (1, 1))" "is_flagged (cell_of loss_example (1, 1))"
    "\<not> is_mine (cell_of loss_example (0, 1))" "is_flagged (cell_of loss_example (0, 1))"
    "\<not> is_revealed (cell_of loss_example (0, 1))"
    "\<not> is_mine (cell_of loss_example (1, 0))" "\<not> is_revealed (cell_of loss_example (1, 0))"
    by (simp_all add: loss_example_def cell_of_def)
  from left_click_mine [OF h] g h c show ?thesis by fastforce
qed

section \<open>Coordinates out of range\<close>

lemma locate_out_of_range:
  assumes "well_formed s"
    and "row < - N s \<or> N s \<le> row \<or> col < - N s \<or> N s \<le> col"
  shows "locate (board s) row col = Inl IndexError"
proof (cases "py_index (length (board s)) row")
  case None
  then show ?thesis by (simp add: locate_def)
next
  case (Some i)
  then have "i < length (board s)" by (rule py_index_less)
  with assms(1) have len: "length (board s ! i) = nat (N s)" "length (board s) = nat (N s)"
    by (simp_all add: well_formed_def)
  from Some len(2) have "- N s \<le> row \<and> row < N s"
    by (auto simp: py_index_def split: if_splits)
  with assms(2) have "col < - N s \<or> N s \<le> col" by auto
  then have "py_index (length (board s ! i)) col = None"
    unfolding len by (auto simp: py_index_def)
  with Some show ?thesis by (simp add: locate_def)
qed

text \<open>
  The board \<^verbatim>\<open>MinesweeperWindow(2, 1)\<close> builds when the sample is the position (0, 0).
\<close>

definition fresh_example :: game where
  "fresh_example =
     \<lparr>N = 2, M = 1, game_over = False,
      board =
        [[\<lparr>is_mine = True, adjacent_mines = - 1, is_revealed = False, is_flagged = False\<rparr>,
          \<lparr>is_mine = False, adjacent_mines = 1, is_revealed = False, is_flagged = False\<rparr>],
         [\<lparr>is_mine = False, adjacent_mines = 1, is_revealed = False, is_flagged = False\<rparr>,
          \<lparr>is_mine = False, adjacent_mines = 1, is_revealed = False, is_flagged = False\<rparr>]],
      info_label = ''Be careful!''\<rparr>"

lemma fresh_example_generated: "MinesweeperWindow_init 2 1 [(0, 0)] = Inr fresh_example"
  by (simp add: MinesweeperWindow_init_def place_mines_def place_mine_def
      calculate_adjacency_def adjacency_cell_def count_adjacent_def count_neighbour_def
      all_positions_def neighbours_def py_range_def locate_def py_index_def
      cell_at.simps cell_upd.simps blank_cell_def fresh_example_def Let_def
      numeral_2_eq_2 upto.simps)

text \<open>
  C8, as the code has it. In a game in progress, a left or right click at a row or a
  column outside \<open>-N \<le> \<dots> < N\<close> raises IndexError, and the state at the raise is the
  state before the call. (A coordinate in \<open>-N \<le> \<dots> < 0\<close> is a negative index of Python
  and names the cell counted from the end.)
\<close>

theorem click_out_of_range:
  assumes "well_formed s" and "\<not> game_over s"
    and "row < - N s \<or> N s \<le> row \<or> col < - N s \<or> N s \<le> col"
  shows "left_click s row col = Inl (IndexError, s)
           \<and> right_click s row col = Inl (IndexError, s)"
  using locate_out_of_range [OF assms(1,3)] assms(2)
  by (simp add: left_click_def right_click_def)

theorem click_out_of_range_witness:
  "well_formed fresh_example \<and> \<not> game_over fresh_example
   \<and> ((5::int) < - N fresh_example \<or> N fresh_example \<le> 5 \<or> (0::int) < - N fresh_example
        \<or> N fresh_example \<le> 0)
   \<and> left_click fresh_example 5 0 = Inl (IndexError, fresh_example)
   \<and> right_click fresh_example 5 0 = Inl (IndexError, fresh_example)"
proof -
  have h: "well_formed fresh_example" "\<not> game_over fresh_example"
    "(5::int) < - N fresh_example \<or> N fresh_example \<le> 5 \<or> (0::int) < - N fresh_example
        \<or> N fresh_example \<le> 0"
    by (simp_all add: fresh_example_def well_formed_def)
  from click_out_of_range [OF h] h show ?thesis by simp
qed

text \<open>
  The claim as stated fails: (-1, -1) is outside \<open>0 \<le> \<dots> < N\<close>, yet a right click
  there returns and flags the cell at (1, 1), and a left click there returns and
  reveals it.
\<close>

theorem click_negative_index_counterexample:
  "\<not> in_grid (N fresh_example) (- 1, - 1) \<and> \<not> game_over fresh_example
   \<and> right_click fresh_example (- 1) (- 1) =
       Inr (fresh_example\<lparr>board :=
         [[\<lparr>is_mine = True, adjacent_mines = - 1, is_revealed = False, is_flagged = False\<rparr>,
           \<lparr>is_mine = False, adjacent_mines = 1, is_revealed = False, is_flagged = False\<rparr>],
          [\<lparr>is_mine = False, adjacent_mines = 1, is_revealed = False, is_flagged = False\<rparr>,
           \<lparr>is_mine = False, adjacent_mines = 1, is_revealed = False, is_flagged = True\<rparr>]]\<rparr>)
   \<and> left_click fresh_example (- 1) (- 1) =
       Inr (fresh_example\<lparr>board :=
         [[\<lparr>is_mine = True, adjacent_mines = - 1, is_revealed = False, is_flagged = False\<rparr>,
           \<lparr>is_mine = False, adjacent_mines = 1, is_revealed = False, is_flagged = False\<rparr>],
          [\<lparr>is_mine = False, adjacent_mines = 1, is_revealed = False, is_flagged = False\<rparr>,
           \<lparr>is_mine = False, adjacent_mines = 1, is_revealed = True, is_flagged = False\<rparr>]]\<rparr>)"
  by (simp add: fresh_example_def in_grid_def left_click_def right_click_def locate_def
      py_index_def cell_at.simps cell_upd.simps check_win_def all_positions_def py_range_def
      Let_def upto.simps)

section \<open>Loops that rewrite one cell per position\<close>

lemma for_each_cells:
  fixes body :: "int \<times> int \<Rightarrow> game \<Rightarrow> game result"
    and f :: "game \<Rightarrow> int \<times> int \<Rightarrow> cell \<Rightarrow> cell"
  assumes step: "\<And>p s. well_formed s \<Longrightarrow> in_grid (N s) p \<Longrightarrow>
             body p s = Inr (s\<lparr>board := cell_upd (board s) (nat (fst p), nat (snd p)) (f s p)\<rparr>)"
    and stable: "\<And>p q s. well_formed s \<Longrightarrow> in_grid (N s) p \<Longrightarrow> in_grid (N s) q \<Longrightarrow> q \<noteq> p \<Longrightarrow>
             f (s\<lparr>board := cell_upd (board s) (nat (fst p), nat (snd p)) (f s p)\<rparr>) q = f s q"
    and "well_formed s" and "\<forall>p \<in> set ps. in_grid (N s) p" and "distinct ps"
  shows "\<exists>b'. for_each ps body s = Inr (s\<lparr>board := b'\<rparr>)
         \<and> well_formed (s\<lparr>board := b'\<rparr>)
         \<and> (\<forall>q. in_grid (N s) q \<longrightarrow>
               cell_of (s\<lparr>board := b'\<rparr>) q
                 = (if q \<in> set ps then f s q (cell_of s q) else cell_of s q))"
  using assms(3-)
proof (induction ps arbitrary: s)
  case Nil
  have "s\<lparr>board := board s\<rparr> = s" by simp
  with Nil show ?case
    by (intro exI [of _ "board s"]) simp
next
  case (Cons p ps)
  from Cons.prems have pg: "in_grid (N s) p" by simp
  define s1 where "s1 = s\<lparr>board := cell_upd (board s) (nat (fst p), nat (snd p)) (f s p)\<rparr>"
  have one: "body p s = Inr s1"
    unfolding s1_def using Cons.prems(1) pg by (rule step)
  have wf1: "well_formed s1" using Cons.prems(1) by (simp add: s1_def)
  have n1: "N s1 = N s" by (simp add: s1_def)
  have c1: "cell_of s1 q = (if q = p then f s p (cell_of s p) else cell_of s q)"
    if "in_grid (N s) q" for q
    unfolding s1_def using Cons.prems(1) pg that by (rule cell_of_cell_upd)
  have f1: "f s1 q = f s q" if "in_grid (N s) q" "q \<noteq> p" for q
    unfolding s1_def using Cons.prems(1) pg that by (rule stable)
  have g1: "\<forall>p \<in> set ps. in_grid (N s1) p" using Cons.prems(2) by (simp add: n1)
  have d1: "distinct ps" "p \<notin> set ps" using Cons.prems(3) by simp_all
  from Cons.IH [OF wf1 g1 d1(1)] obtain b' where
    run: "for_each ps body s1 = Inr (s1\<lparr>board := b'\<rparr>)"
    and wf': "well_formed (s1\<lparr>board := b'\<rparr>)"
    and cells: "\<forall>q. in_grid (N s1) q \<longrightarrow>
               cell_of (s1\<lparr>board := b'\<rparr>) q
                 = (if q \<in> set ps then f s1 q (cell_of s1 q) else cell_of s1 q)"
    by blast
  have eq: "s1\<lparr>board := b'\<rparr> = s\<lparr>board := b'\<rparr>" by (simp add: s1_def)
  have "for_each (p # ps) body s = Inr (s\<lparr>board := b'\<rparr>)"
    using run one unfolding eq by simp
  moreover have "well_formed (s\<lparr>board := b'\<rparr>)" using wf' unfolding eq .
  moreover have "cell_of (s\<lparr>board := b'\<rparr>) q
                 = (if q \<in> set (p # ps) then f s q (cell_of s q) else cell_of s q)"
    if "in_grid (N s) q" for q
  proof -
    from that have "in_grid (N s1) q" by (simp add: n1)
    with cells have *: "cell_of (s\<lparr>board := b'\<rparr>) q
                 = (if q \<in> set ps then f s1 q (cell_of s1 q) else cell_of s1 q)"
      unfolding eq by blast
    show ?thesis
    proof (cases "q = p")
      case True
      with * d1(2) c1 [OF that] show ?thesis by simp
    next
      case False
      with * c1 [OF that] f1 [OF that False] show ?thesis by simp
    qed
  qed
  ultimately show ?case by blast
qed

lemma place_mine_in_grid:
  assumes "well_formed s" and "in_grid (N s) p"
  shows "place_mine p s =
           Inr (s\<lparr>board := cell_upd (board s) (nat (fst p), nat (snd p))
                                (\<lambda>cl. cl\<lparr>is_mine := True\<rparr>)\<rparr>)"
  using locate_in_grid [OF assms(1), of "fst p" "snd p"] assms(2)
  by (cases p) (simp add: place_mine_def)

lemma place_mines_loop:
  assumes "well_formed s" and "\<forall>p \<in> set ps. in_grid (N s) p" and "distinct ps"
  shows "\<exists>b'. for_each ps place_mine s = Inr (s\<lparr>board := b'\<rparr>)
         \<and> well_formed (s\<lparr>board := b'\<rparr>)
         \<and> (\<forall>q. in_grid (N s) q \<longrightarrow>
               cell_of (s\<lparr>board := b'\<rparr>) q
                 = (if q \<in> set ps then (cell_of s q)\<lparr>is_mine := True\<rparr> else cell_of s q))"
  by (rule for_each_cells [where f = "\<lambda>s p cl. cl\<lparr>is_mine := True\<rparr>", OF _ _ assms])
     (simp_all add: place_mine_in_grid)

section \<open>The generated board\<close>

lemma neighbours_in_grid: "q \<in> set (neighbours n r c) \<Longrightarrow> in_grid n q"
  by (auto simp: neighbours_def py_range_def in_grid_def)

lemma count_neighbour_in_grid:
  assumes "well_formed s" and "in_grid (N s) q"
  shows "count_neighbour s q k = Inr (if is_mine (cell_of s q) then k + 1 else k)"
  using locate_in_grid [OF assms(1), of "fst q" "snd q"] assms(2)
  by (cases q) (simp add: count_neighbour_def cell_at_cell_of)

lemma count_neighbours_loop:
  assumes "well_formed s" and "\<forall>q \<in> set qs. in_grid (N s) q"
  shows "for_each qs (count_neighbour s) k
           = Inr (k + int (length (filter (\<lambda>q. is_mine (cell_of s q)) qs)))"
  using assms(2)
proof (induction qs arbitrary: k)
  case Nil
  then show ?case by simp
next
  case (Cons q qs)
  then show ?case
    by (simp add: count_neighbour_in_grid [OF assms(1)])
qed

text \<open>What the adjacency pass writes into the cell at a position of the grid.\<close>

definition written_count :: "game \<Rightarrow> int \<times> int \<Rightarrow> int" where
  "written_count s p =
     (if is_mine (cell_of s p) then - 1
      else int (length (filter (\<lambda>q. is_mine (cell_of s q))
                          (neighbours (N s) (fst p) (snd p)))))"

lemma count_adjacent_in_grid:
  assumes "well_formed s"
  shows "count_adjacent s r c
           = Inr (int (length (filter (\<lambda>q. is_mine (cell_of s q)) (neighbours (N s) r c))))"
  unfolding count_adjacent_def
  using count_neighbours_loop [OF assms, of "neighbours (N s) r c" 0]
  by (simp add: neighbours_in_grid)

lemma adjacency_cell_in_grid:
  assumes "well_formed s" and "in_grid (N s) p"
  shows "adjacency_cell p s =
           Inr (s\<lparr>board := cell_upd (board s) (nat (fst p), nat (snd p))
                                (\<lambda>cl. cl\<lparr>adjacent_mines := written_count s p\<rparr>)\<rparr>)"
  using locate_in_grid [OF assms(1), of "fst p" "snd p"] assms(2)
  by (cases p)
     (simp add: adjacency_cell_def cell_at_cell_of count_adjacent_in_grid [OF assms(1)]
        written_count_def)

lemma written_count_cong:
  assumes "N s' = N s" and "\<And>q. in_grid (N s) q \<Longrightarrow> is_mine (cell_of s' q) = is_mine (cell_of s q)"
    and "in_grid (N s) p"
  shows "written_count s' p = written_count s p"
proof -
  have "filter (\<lambda>q. is_mine (cell_of s' q)) (neighbours (N s) (fst p) (snd p))
          = filter (\<lambda>q. is_mine (cell_of s q)) (neighbours (N s) (fst p) (snd p))"
    by (rule filter_cong) (simp_all add: assms(2) neighbours_in_grid)
  then show ?thesis
    by (simp add: written_count_def assms)
qed

lemma calculate_adjacency_cells:
  assumes "well_formed s"
  shows "\<exists>b'. calculate_adjacency s = Inr (s\<lparr>board := b'\<rparr>)
         \<and> well_formed (s\<lparr>board := b'\<rparr>)
         \<and> (\<forall>q. in_grid (N s) q \<longrightarrow>
               cell_of (s\<lparr>board := b'\<rparr>) q
                 = (cell_of s q)\<lparr>adjacent_mines := written_count s q\<rparr>)"
proof -
  have g: "\<forall>p \<in> set (all_positions (N s)). in_grid (N s) p"
    by (simp add: set_all_positions)
  have "\<exists>b'. for_each (all_positions (N s)) adjacency_cell s = Inr (s\<lparr>board := b'\<rparr>)
         \<and> well_formed (s\<lparr>board := b'\<rparr>)
         \<and> (\<forall>q. in_grid (N s) q \<longrightarrow>
               cell_of (s\<lparr>board := b'\<rparr>) q
                 = (if q \<in> set (all_positions (N s))
                    then (cell_of s q)\<lparr>adjacent_mines := written_count s q\<rparr> else cell_of s q))"
  proof (rule for_each_cells
      [where f = "\<lambda>s p cl. cl\<lparr>adjacent_mines := written_count s p\<rparr>",
        OF _ _ assms g distinct_all_positions])
    fix p s assume "well_formed s" "in_grid (N s) p"
    then show "adjacency_cell p s =
           Inr (s\<lparr>board := cell_upd (board s) (nat (fst p), nat (snd p))
                                (\<lambda>cl. cl\<lparr>adjacent_mines := written_count s p\<rparr>)\<rparr>)"
      by (rule adjacency_cell_in_grid)
  next
    fix p q s
    assume a: "well_formed s" "in_grid (N s) p" "in_grid (N s) q" "q \<noteq> p"
    have "written_count
            (s\<lparr>board := cell_upd (board s) (nat (fst p), nat (snd p))
                            (\<lambda>cl. cl\<lparr>adjacent_mines := written_count s p\<rparr>)\<rparr>) q
          = written_count s q"
      by (rule written_count_cong) (simp_all add: cell_of_cell_upd [OF a(1,2)] a(3))
    then show "(\<lambda>cl. cl\<lparr>adjacent_mines := written_count
            (s\<lparr>board := cell_upd (board s) (nat (fst p), nat (snd p))
                            (\<lambda>cl. cl\<lparr>adjacent_mines := written_count s p\<rparr>)\<rparr>) q\<rparr>)
         = (\<lambda>cl. cl\<lparr>adjacent_mines := written_count s q\<rparr>)"
      by simp
  qed
  then show ?thesis
    unfolding calculate_adjacency_def by (simp add: set_all_positions)
qed

lemma sample_in_grid:
  assumes "is_sample (all_positions n) m mp"
  shows "0 \<le> m" and "int (length (all_positions n)) \<ge> m" and "distinct mp"
    and "\<forall>p \<in> set mp. in_grid n p" and "length mp = nat m"
proof -
  from assms have a: "0 \<le> m" "length mp = nat m" "distinct mp" "set mp \<subseteq> set (all_positions n)"
    by (simp_all add: is_sample_def)
  from a(3,4) have "length mp \<le> length (all_positions n)"
    by (metis card_mono distinct_card distinct_all_positions List.finite_set)
  with a show "0 \<le> m" "int (length (all_positions n)) \<ge> m" "distinct mp"
    "\<forall>p \<in> set mp. in_grid n p" "length mp = nat m"
    by (auto simp: set_all_positions)
qed

text \<open>The window \<^verbatim>\<open>__init__\<close> builds, cell by cell.\<close>

lemma MinesweeperWindow_init_cells:
  assumes "is_sample (all_positions n) m mp"
  shows "\<exists>s. MinesweeperWindow_init n m mp = Inr s \<and> well_formed s \<and> N s = n \<and> M s = m
           \<and> \<not> game_over s \<and> info_label s = ''Be careful!''
           \<and> (\<forall>q. in_grid n q \<longrightarrow>
                 is_mine (cell_of s q) = (q \<in> set mp)
                 \<and> adjacent_mines (cell_of s q) = written_count s q
                 \<and> \<not> is_revealed (cell_of s q) \<and> \<not> is_flagged (cell_of s q))"
proof -
  define s0 where "s0 = \<lparr>N = n, M = m, game_over = False,
               board = replicate (nat n) (replicate (nat n) blank_cell),
               info_label = []\<rparr>"
  have wf0: "well_formed s0" by (simp add: s0_def well_formed_def)
  have c0: "cell_of s0 q = blank_cell" if "in_grid n q" for q
    using that by (simp add: s0_def cell_of_def in_grid_def)
  note smp = sample_in_grid [OF assms]
  have g: "\<forall>p \<in> set mp. in_grid (N s0) p" using smp(4) by (simp add: s0_def)
  from place_mines_loop [OF wf0 g smp(3)] obtain b1 where
    p1: "for_each mp place_mine s0 = Inr (s0\<lparr>board := b1\<rparr>)"
    and wf1: "well_formed (s0\<lparr>board := b1\<rparr>)"
    and c1: "\<forall>q. in_grid (N s0) q \<longrightarrow>
               cell_of (s0\<lparr>board := b1\<rparr>) q
                 = (if q \<in> set mp then (cell_of s0 q)\<lparr>is_mine := True\<rparr> else cell_of s0 q)"
    by blast
  define s1 where "s1 = s0\<lparr>board := b1\<rparr>"
  have pm: "place_mines s0 mp = Inr s1"
    using p1 smp(1,2) by (simp add: place_mines_def s1_def s0_def)
  from calculate_adjacency_cells [OF wf1] obtain b2 where
    p2: "calculate_adjacency s1 = Inr (s1\<lparr>board := b2\<rparr>)"
    and wf2: "well_formed (s1\<lparr>board := b2\<rparr>)"
    and c2: "\<forall>q. in_grid (N s1) q \<longrightarrow>
               cell_of (s1\<lparr>board := b2\<rparr>) q
                 = (cell_of s1 q)\<lparr>adjacent_mines := written_count s1 q\<rparr>"
    unfolding s1_def by blast
  define s2 where "s2 = s1\<lparr>board := b2, info_label := ''Be careful!''\<rparr>"
  have run: "MinesweeperWindow_init n m mp = Inr s2"
    using pm p2 by (simp add: MinesweeperWindow_init_def s0_def [symmetric] s2_def)
  have n: "N s0 = n" "N s1 = n" "N s2 = n" by (simp_all add: s0_def s1_def s2_def)
  have cs1: "cell_of s1 q = (if q \<in> set mp then blank_cell\<lparr>is_mine := True\<rparr> else blank_cell)"
    if "in_grid n q" for q
    using c1 [rule_format, of q] that c0 [OF that] by (simp add: n s1_def)
  have cs2: "cell_of s2 q = (cell_of s1 q)\<lparr>adjacent_mines := written_count s1 q\<rparr>"
    if "in_grid n q" for q
    using c2 [rule_format, of q] that by (simp add: n s2_def cell_of_def)
  have w: "written_count s2 q = written_count s1 q" if "in_grid n q" for q
    by (rule written_count_cong) (simp_all add: n cs2 that)
  have "is_mine (cell_of s2 q) = (q \<in> set mp)
                 \<and> adjacent_mines (cell_of s2 q) = written_count s2 q
                 \<and> \<not> is_revealed (cell_of s2 q) \<and> \<not> is_flagged (cell_of s2 q)"
    if "in_grid n q" for q
    using cs1 [OF that] cs2 [OF that] w [OF that] by (simp add: blank_cell_def)
  moreover have "well_formed s2" using wf2 by (simp add: s2_def well_formed_def)
  moreover have "M s2 = m" "\<not> game_over s2" "info_label s2 = ''Be careful!''"
    by (simp_all add: s2_def s1_def s0_def)
  ultimately show ?thesis using run n(3) by blast
qed

section \<open>Counting cells\<close>

lemma count_cells_card:
  assumes "well_formed s"
  shows "count_cells P (board s) = card {q. in_grid (N s) q \<and> P (cell_of s q)}"
proof -
  let ?n = "nat (N s)"
  let ?b = "board s"
  let ?A = "\<lambda>i. {j. j < ?n \<and> P (?b ! i ! j)}"
  let ?S = "SIGMA i:{0..<?n}. ?A i"
  have len: "length ?b = ?n" and row: "\<And>i. i < ?n \<Longrightarrow> length (?b ! i) = ?n"
    using assms by (simp_all add: well_formed_nth)
  have "count_cells P ?b = (\<Sum>i = 0..<?n. length (filter P (?b ! i)))"
    unfolding count_cells_def by (simp add: sum_list_sum_nth len)
  also have "\<dots> = (\<Sum>i = 0..<?n. card (?A i))"
    by (rule sum.cong) (simp_all add: length_filter_conv_card row)
  also have "\<dots> = card ?S"
    by (simp add: card_SigmaI)
  also have "\<dots> = card ((\<lambda>(i, j). (int i, int j)) ` ?S)"
    by (rule card_image [symmetric]) (auto simp: inj_on_def)
  also have "(\<lambda>(i, j). (int i, int j)) ` ?S = {q. in_grid (N s) q \<and> P (cell_of s q)}"
  proof (intro set_eqI iffI)
    fix q assume "q \<in> (\<lambda>(i, j). (int i, int j)) ` ?S"
    then show "q \<in> {q. in_grid (N s) q \<and> P (cell_of s q)}"
      by (auto simp: in_grid_def cell_of_def)
  next
    fix q assume "q \<in> {q. in_grid (N s) q \<and> P (cell_of s q)}"
    then have "(nat (fst q), nat (snd q)) \<in> ?S" "q = (int (nat (fst q)), int (nat (snd q)))"
      by (auto simp: in_grid_def cell_of_def)
    then show "q \<in> (\<lambda>(i, j). (int i, int j)) ` ?S"
      by (metis (no_types, lifting) image_eqI old.prod.case)
  qed
  finally show ?thesis .
qed

section \<open>Starting a game\<close>

text \<open>
  C9. \<^verbatim>\<open>on_start_game\<close> on a start window that has opened no game yet, where
  \<^verbatim>\<open>random.sample\<close> returns a sample whenever the parameters pass the checks. The
  call returns, and it opens a game window if and only if both texts parse as
  integers \<open>n\<close> and \<open>m\<close> with \<open>0 < n\<close> and \<open>0 \<le> m < n * n\<close>; the window is then the one
  \<^verbatim>\<open>MinesweeperWindow(n, m)\<close> builds. For any other input no window (and so no board)
  is made: the start window is as before but for its error label, which holds one of
  the three messages. In particular the parameters 5 and 25 are rejected with the
  message of the range of M.
\<close>

theorem on_start_game_valid_iff:
  assumes fresh: "minesweeper_window w = None"
    and sample: "\<forall>n m. py_int (lineedit_n w) = Some n \<longrightarrow> py_int (lineedit_m w) = Some m \<longrightarrow>
             0 < n \<longrightarrow> 0 \<le> m \<longrightarrow> m < n * n \<longrightarrow> is_sample (all_positions n) m mp"
  shows "\<exists>w'. on_start_game py_int mp w = Inr w'
           \<and> (minesweeper_window w' \<noteq> None \<longleftrightarrow>
                (\<exists>n m. py_int (lineedit_n w) = Some n \<and> py_int (lineedit_m w) = Some m
                   \<and> 0 < n \<and> 0 \<le> m \<and> m < n * n))
           \<and> (\<forall>g. minesweeper_window w' = Some g \<longrightarrow>
                (\<exists>n m. py_int (lineedit_n w) = Some n \<and> py_int (lineedit_m w) = Some m
                   \<and> MinesweeperWindow_init n m mp = Inr g
                   \<and> w' = w\<lparr>minesweeper_window := Some g\<rparr>))
           \<and> (minesweeper_window w' = None \<longrightarrow>
                w' = w\<lparr>error_label := error_label w'\<rparr>
                \<and> error_label w' \<in> {''Please enter valid integers!'', ''N must be > 0!'',
                                      ''Invalid range for M! (0 <= M < N*N)''})
           \<and> (py_int (lineedit_n w) = Some 5 \<and> py_int (lineedit_m w) = Some 25 \<longrightarrow>
                w' = w\<lparr>error_label := ''Invalid range for M! (0 <= M < N*N)''\<rparr>)"
proof (cases "py_int (lineedit_n w)")
  case None
  with fresh show ?thesis by (simp add: on_start_game_def)
next
  case n: (Some n)
  show ?thesis
  proof (cases "py_int (lineedit_m w)")
    case None
    with n fresh show ?thesis by (simp add: on_start_game_def)
  next
    case m: (Some m)
    show ?thesis
    proof (cases "0 < n \<and> 0 \<le> m \<and> m < n * n")
      case False
      with n m fresh show ?thesis by (auto simp: on_start_game_def)
    next
      case True
      with sample n m have "is_sample (all_positions n) m mp" by blast
      from MinesweeperWindow_init_cells [OF this] obtain g where
        "MinesweeperWindow_init n m mp = Inr g" by blast
      with True n m fresh show ?thesis by (auto simp: on_start_game_def)
    qed
  qed
qed

theorem on_start_game_valid_iff_witness:
  "on_start_game (\<lambda>t. if t = ''2'' then Some 2 else if t = ''1'' then Some 1 else None)
     [(0, 0)]
     \<lparr>lineedit_n = ''2'', lineedit_m = ''1'', error_label = [], minesweeper_window = None\<rparr>
   = Inr \<lparr>lineedit_n = ''2'', lineedit_m = ''1'', error_label = [],
          minesweeper_window = Some fresh_example\<rparr>"
proof -
  let ?py = "\<lambda>t. if t = ''2'' then Some (2::int) else if t = ''1'' then Some 1 else None"
  let ?w = "\<lparr>lineedit_n = ''2'', lineedit_m = ''1'', error_label = [],
             minesweeper_window = None\<rparr>"
  have fresh: "minesweeper_window ?w = None" by simp
  have smp: "is_sample (all_positions 2) 1 [(0, 0)]"
    by (simp add: is_sample_def set_all_positions in_grid_def)
  have sample: "\<forall>n m. ?py (lineedit_n ?w) = Some n \<longrightarrow> ?py (lineedit_m ?w) = Some m \<longrightarrow>
             0 < n \<longrightarrow> 0 \<le> m \<longrightarrow> m < n * n \<longrightarrow> is_sample (all_positions n) m [(0, 0)]"
    using smp by simp
  from on_start_game_valid_iff [of ?w ?py "[(0, 0)]", OF fresh sample]
  obtain w' where w': "on_start_game ?py [(0, 0)] ?w = Inr w'"
    and win: "\<forall>g. minesweeper_window w' = Some g \<longrightarrow>
                (\<exists>n m. ?py (lineedit_n ?w) = Some n \<and> ?py (lineedit_m ?w) = Some m
                   \<and> MinesweeperWindow_init n m [(0, 0)] = Inr g
                   \<and> w' = ?w\<lparr>minesweeper_window := Some g\<rparr>)"
    and iff: "minesweeper_window w' \<noteq> None \<longleftrightarrow>
                (\<exists>n m. ?py (lineedit_n ?w) = Some n \<and> ?py (lineedit_m ?w) = Some m
                   \<and> 0 < n \<and> 0 \<le> m \<and> m < n * n)"
    by blast
  from iff obtain g where g: "minesweeper_window w' = Some g" by auto
  with win have "MinesweeperWindow_init 2 1 [(0, 0)] = Inr g" "w' = ?w\<lparr>minesweeper_window := Some g\<rparr>"
    by auto
  with fresh_example_generated w' show ?thesis by simp
qed

section \<open>Adjacent mines\<close>

text \<open>
  The count of the spec: the eight neighbours of a cell, sharing an edge or a corner
  with it, as offsets; a neighbour counts when it lies in the grid and holds a mine.
\<close>

definition moore_offsets :: "(int \<times> int) list" where
  "moore_offsets =
     [(- 1, - 1), (- 1, 0), (- 1, 1), (0, - 1), (0, 1), (1, - 1), (1, 0), (1, 1)]"

definition moore_mine_count :: "game \<Rightarrow> int \<times> int \<Rightarrow> nat" where
  "moore_mine_count s p =
     length (filter (\<lambda>(dr, dc). in_grid (N s) (fst p + dr, snd p + dc)
                        \<and> is_mine (cell_of s (fst p + dr, snd p + dc)))
               moore_offsets)"

lemma clipped_range:
  assumes "0 \<le> r" and "r < n"
  shows "py_range (max 0 (r - 1)) (min n (r + 2))
           = filter (\<lambda>x. 0 \<le> x \<and> x < n) [r - 1, r, r + 1]"
proof -
  consider "r = 0" "n = 1" | "r = 0" "1 < n" | "0 < r" "r + 1 < n" | "0 < r" "r + 1 = n"
    using assms by linarith
  then show ?thesis
  proof cases
    case 1
    then show ?thesis by (simp add: py_range_def)
  next
    case 2
    then have "min n 2 - 1 = 1" by simp
    with 2 show ?thesis by (simp add: py_range_def upto_rec1)
  next
    case 3
    then have m: "max 0 (r - 1) = r - 1" "min n (r + 2) - 1 = r + 1" by simp_all
    have u: "[r - 1..r + 1] = [r - 1, r, r + 1]"
      by (simp add: upto_rec1)
    show ?thesis unfolding py_range_def m u using 3 by simp
  next
    case 4
    then have m: "max 0 (r - 1) = r - 1" "min n (r + 2) - 1 = r" by simp_all
    have u: "[r - 1..r] = [r - 1, r]"
      by (simp add: upto_rec1)
    show ?thesis unfolding py_range_def m u using 4 by simp
  qed
qed

lemma length_filter_of_bool: "length (filter Q xs) = (\<Sum>x\<leftarrow>xs. of_bool (Q x))"
  by (induction xs) simp_all

lemma filter_pairs_inner:
  "filter P (map (Pair a) (filter g ys))
     = filter (\<lambda>(a, b). g b \<and> P (a, b)) (map (Pair a) ys)"
  by (induction ys) simp_all

lemma filter_pairs:
  "filter P (concat (map (\<lambda>a. map (Pair a) (filter g ys)) (filter g xs)))
     = filter (\<lambda>(a, b). g a \<and> g b \<and> P (a, b)) (concat (map (\<lambda>a. map (Pair a) ys) xs))"
proof (induction xs)
  case Nil
  then show ?case by simp
next
  case (Cons a xs)
  have "filter (\<lambda>(a', b). g a' \<and> g b \<and> P (a', b)) (map (Pair a) ys)
          = filter (\<lambda>(a, b). g b \<and> P (a, b)) (map (Pair a) ys)" if "g a"
    using that by (induction ys) simp_all
  moreover have "filter (\<lambda>(a', b). g a' \<and> g b \<and> P (a', b)) (map (Pair a) ys) = []" if "\<not> g a"
    using that by (induction ys) simp_all
  ultimately show ?case
    using Cons by (cases "g a") (simp_all add: filter_pairs_inner)
qed

lemma neighbours_mine_count:
  assumes "in_grid n (r, c)" and "\<not> P (r, c)"
  shows "length (filter P (neighbours n r c))
           = length (filter (\<lambda>(dr, dc). in_grid n (r + dr, c + dc) \<and> P (r + dr, c + dc))
                       moore_offsets)"
proof -
  let ?g = "\<lambda>x. 0 \<le> x \<and> x < n"
  from assms(1) have rc: "0 \<le> r" "r < n" "0 \<le> c" "c < n" by (simp_all add: in_grid_def)
  have "filter P (neighbours n r c)
          = filter (\<lambda>(a, b). ?g a \<and> ?g b \<and> P (a, b))
              (concat (map (\<lambda>a. map (Pair a) [c - 1, c, c + 1]) [r - 1, r, r + 1]))"
    unfolding neighbours_def clipped_range [OF rc(1,2)] clipped_range [OF rc(3,4)]
    by (rule filter_pairs)
  then have "length (filter P (neighbours n r c))
          = (\<Sum>x\<leftarrow>concat (map (\<lambda>a. map (Pair a) [c - 1, c, c + 1]) [r - 1, r, r + 1]).
               of_bool ((\<lambda>(a, b). ?g a \<and> ?g b \<and> P (a, b)) x))"
    by (simp only: length_filter_of_bool)
  also have "\<dots> = (\<Sum>x\<leftarrow>moore_offsets.
               of_bool ((\<lambda>(dr, dc). in_grid n (r + dr, c + dc) \<and> P (r + dr, c + dc)) x))"
    using assms(2) by (simp add: moore_offsets_def in_grid_def conj_ac)
  finally show ?thesis by (simp only: length_filter_of_bool)
qed

text \<open>
  C5. On every board \<^verbatim>\<open>MinesweeperWindow(n, m)\<close> builds, the field
  \<^verbatim>\<open>adjacent_mines\<close> of a cell with a mine is -1, and that of any other cell is the
  number of its neighbours (sharing an edge or a corner) that lie in the grid and hold
  a mine; a neighbour outside the grid is never counted.
\<close>

theorem adjacent_mines_correct:
  assumes "is_sample (all_positions n) m mp"
  shows "\<exists>s. MinesweeperWindow_init n m mp = Inr s
           \<and> (\<forall>q. in_grid n q \<longrightarrow>
                 adjacent_mines (cell_of s q)
                   = (if is_mine (cell_of s q) then - 1 else int (moore_mine_count s q)))"
proof -
  from MinesweeperWindow_init_cells [OF assms] obtain s where
    run: "MinesweeperWindow_init n m mp = Inr s" and n: "N s = n"
    and cells: "\<forall>q. in_grid n q \<longrightarrow> adjacent_mines (cell_of s q) = written_count s q"
    by blast
  have "adjacent_mines (cell_of s q)
          = (if is_mine (cell_of s q) then - 1 else int (moore_mine_count s q))"
    if q: "in_grid n q" for q
  proof (cases "is_mine (cell_of s q)")
    case True
    from cells q have "adjacent_mines (cell_of s q) = written_count s q" by blast
    with True show ?thesis by (simp add: written_count_def)
  next
    case False
    from q have "in_grid n (fst q, snd q)" by simp
    from neighbours_mine_count [of n "fst q" "snd q" "\<lambda>x. is_mine (cell_of s x)", OF this] False
    have "length (filter (\<lambda>x. is_mine (cell_of s x)) (neighbours n (fst q) (snd q)))
            = moore_mine_count s q"
      by (simp add: moore_mine_count_def n)
    moreover from cells q have "adjacent_mines (cell_of s q) = written_count s q" by blast
    ultimately show ?thesis using False by (simp add: written_count_def n)
  qed
  with run show ?thesis by blast
qed

theorem adjacent_mines_correct_witness:
  "is_sample (all_positions 2) 1 [(0, 0)]
   \<and> MinesweeperWindow_init 2 1 [(0, 0)] = Inr fresh_example
   \<and> is_mine (cell_of fresh_example (0, 0))
   \<and> adjacent_mines (cell_of fresh_example (0, 0)) = - 1
   \<and> \<not> is_mine (cell_of fresh_example (1, 1))
   \<and> adjacent_mines (cell_of fresh_example (1, 1)) = int (moore_mine_count fresh_example (1, 1))
   \<and> moore_mine_count fresh_example (1, 1) = 1"
proof -
  have smp: "is_sample (all_positions 2) 1 [(0, 0)]"
    by (simp add: is_sample_def set_all_positions in_grid_def)
  from adjacent_mines_correct [OF smp] fresh_example_generated
  have cells: "\<forall>q. in_grid 2 q \<longrightarrow>
                 adjacent_mines (cell_of fresh_example q)
                   = (if is_mine (cell_of fresh_example q) then - 1
                      else int (moore_mine_count fresh_example q))"
    by simp
  have m: "is_mine (cell_of fresh_example (0, 0))" "\<not> is_mine (cell_of fresh_example (1, 1))"
    by (simp_all add: fresh_example_def cell_of_def)
  have "in_grid 2 (0, 0)" "in_grid 2 (1, 1)" by (simp_all add: in_grid_def)
  with cells m have "adjacent_mines (cell_of fresh_example (0, 0)) = - 1"
    "adjacent_mines (cell_of fresh_example (1, 1)) = int (moore_mine_count fresh_example (1, 1))"
    by auto
  moreover have "moore_mine_count fresh_example (1, 1) = 1"
    by (simp add: moore_mine_count_def moore_offsets_def fresh_example_def in_grid_def cell_of_def)
  ultimately show ?thesis using smp m fresh_example_generated by simp
qed

section \<open>One pass over the neighbours in the flood fill\<close>

text \<open>
  The test of \<^verbatim>\<open>_flood_fill\<close> on a neighbour: not revealed, not flagged and no mine.
\<close>

definition fillable :: "game \<Rightarrow> int \<times> int \<Rightarrow> bool" where
  "fillable s q \<longleftrightarrow>
     \<not> is_revealed (cell_of s q) \<and> \<not> is_flagged (cell_of s q) \<and> \<not> is_mine (cell_of s q)"

lemma locate_some_in_grid:
  assumes "well_formed s" and "locate (board s) row col = Inr ij"
  shows "\<exists>p. in_grid (N s) p \<and> ij = (nat (fst p), nat (snd p))"
proof -
  obtain i j where ij: "ij = (i, j)" by (cases ij)
  from locate_bounds [OF assms(2) [unfolded ij]] assms(1)
  have "i < nat (N s)" "j < nat (N s)" by (auto simp: well_formed_nth)
  then have "in_grid (N s) (int i, int j)" "ij = (nat (fst (int i, int j)), nat (snd (int i, int j)))"
    by (auto simp: in_grid_def ij)
  then show ?thesis by blast
qed

lemma flood_neighbour_in_grid:
  assumes "well_formed s" and "in_grid (N s) q"
  shows "flood_neighbour q (s, stack) =
           Inr (if fillable s q
                then (s\<lparr>board := cell_upd (board s) (nat (fst q), nat (snd q))
                                    (\<lambda>cl. cl\<lparr>is_revealed := True\<rparr>)\<rparr>,
                      if adjacent_mines (cell_of s q) = 0 then q # stack else stack)
                else (s, stack))"
proof -
  have loc: "locate (board s) (fst q) (snd q) = Inr (nat (fst q), nat (snd q))"
    using locate_in_grid [OF assms(1), of "fst q" "snd q"] assms(2) by simp
  have "cell_of (s\<lparr>board := cell_upd (board s) (nat (fst q), nat (snd q))
                                    (\<lambda>cl. cl\<lparr>is_revealed := True\<rparr>)\<rparr>) q
          = (cell_of s q)\<lparr>is_revealed := True\<rparr>"
    using cell_of_cell_upd [OF assms assms(2)] by simp
  then have adj: "adjacent_mines (cell_of (s\<lparr>board := cell_upd (board s) (nat (fst q), nat (snd q))
                                    (\<lambda>cl. cl\<lparr>is_revealed := True\<rparr>)\<rparr>) q)
          = adjacent_mines (cell_of s q)"
    by simp
  show ?thesis
    using loc adj
    by (cases q) (simp add: flood_neighbour_def fillable_def cell_at_cell_of Let_def)
qed

lemma flood_neighbours_cells:
  assumes "well_formed s" and "\<forall>q \<in> set qs. in_grid (N s) q"
  shows "\<exists>b' new. for_each qs flood_neighbour (s, stack) = Inr (s\<lparr>board := b'\<rparr>, new @ stack)
         \<and> well_formed (s\<lparr>board := b'\<rparr>)
         \<and> (\<forall>q. in_grid (N s) q \<longrightarrow>
               cell_of (s\<lparr>board := b'\<rparr>) q
                 = (if q \<in> set qs \<and> fillable s q
                    then (cell_of s q)\<lparr>is_revealed := True\<rparr> else cell_of s q))
         \<and> distinct new
         \<and> set new = {q \<in> set qs. fillable s q \<and> adjacent_mines (cell_of s q) = 0}"
  using assms
proof (induction qs arbitrary: s stack)
  case Nil
  have "s\<lparr>board := board s\<rparr> = s" by simp
  with Nil show ?case
    by (intro exI [of _ "board s"] exI [of _ "[]"]) simp
next
  case (Cons p ps)
  from Cons.prems have pg: "in_grid (N s) p" by simp
  define s1 where "s1 = (if fillable s p
             then s\<lparr>board := cell_upd (board s) (nat (fst p), nat (snd p))
                                (\<lambda>cl. cl\<lparr>is_revealed := True\<rparr>)\<rparr>
             else s)"
  define new1 where "new1 = (if fillable s p \<and> adjacent_mines (cell_of s p) = 0 then [p] else [])"
  have one: "flood_neighbour p (s, stack) = Inr (s1, new1 @ stack)"
    using flood_neighbour_in_grid [OF Cons.prems(1) pg, of stack]
    by (simp add: s1_def new1_def)
  have wf1: "well_formed s1" using Cons.prems(1) by (simp add: s1_def)
  have n1: "N s1 = N s" by (simp add: s1_def)
  have c1: "cell_of s1 q = (if q = p \<and> fillable s q
              then (cell_of s q)\<lparr>is_revealed := True\<rparr> else cell_of s q)"
    if "in_grid (N s) q" for q
    using cell_of_cell_upd [OF Cons.prems(1) pg that] by (auto simp: s1_def)
  have f1: "fillable s1 q \<longleftrightarrow> fillable s q \<and> q \<noteq> p" if "in_grid (N s) q" for q
    using c1 [OF that] by (auto simp: fillable_def)
  have a1: "adjacent_mines (cell_of s1 q) = adjacent_mines (cell_of s q)"
    if "in_grid (N s) q" for q
    using c1 [OF that] by auto
  have g1: "\<forall>q \<in> set ps. in_grid (N s1) q" using Cons.prems(2) by (simp add: n1)
  from Cons.IH [OF wf1 g1, of "new1 @ stack"] obtain b' new where
    run: "for_each ps flood_neighbour (s1, new1 @ stack)
            = Inr (s1\<lparr>board := b'\<rparr>, new @ new1 @ stack)"
    and wf': "well_formed (s1\<lparr>board := b'\<rparr>)"
    and cells: "\<forall>q. in_grid (N s1) q \<longrightarrow>
               cell_of (s1\<lparr>board := b'\<rparr>) q
                 = (if q \<in> set ps \<and> fillable s1 q
                    then (cell_of s1 q)\<lparr>is_revealed := True\<rparr> else cell_of s1 q)"
    and dist: "distinct new"
    and new: "set new = {q \<in> set ps. fillable s1 q \<and> adjacent_mines (cell_of s1 q) = 0}"
    by blast
  have eq: "s1\<lparr>board := b'\<rparr> = s\<lparr>board := b'\<rparr>" by (simp add: s1_def)
  have newg: "\<forall>q \<in> set new. in_grid (N s) q \<and> fillable s1 q \<and> adjacent_mines (cell_of s1 q) = 0"
    using new Cons.prems(2) by auto
  have "for_each (p # ps) flood_neighbour (s, stack)
          = Inr (s\<lparr>board := b'\<rparr>, (new @ new1) @ stack)"
    using run one unfolding eq by simp
  moreover have "well_formed (s\<lparr>board := b'\<rparr>)" using wf' unfolding eq .
  moreover have "cell_of (s\<lparr>board := b'\<rparr>) q
                 = (if q \<in> set (p # ps) \<and> fillable s q
                    then (cell_of s q)\<lparr>is_revealed := True\<rparr> else cell_of s q)"
    if "in_grid (N s) q" for q
  proof -
    from that have "in_grid (N s1) q" by (simp add: n1)
    with cells have *: "cell_of (s\<lparr>board := b'\<rparr>) q
                 = (if q \<in> set ps \<and> fillable s1 q
                    then (cell_of s1 q)\<lparr>is_revealed := True\<rparr> else cell_of s1 q)"
      unfolding eq by blast
    show ?thesis
      unfolding * f1 [OF that] c1 [OF that] by auto
  qed
  moreover have "distinct (new @ new1)"
  proof -
    have "p \<notin> set new" using newg f1 [OF pg] by blast
    with dist show ?thesis by (auto simp: new1_def)
  qed
  moreover have "set (new @ new1)
      = {q \<in> set (p # ps). fillable s q \<and> adjacent_mines (cell_of s q) = 0}"
  proof (intro set_eqI iffI)
    fix q assume "q \<in> set (new @ new1)"
    then consider "q \<in> set new" | "q \<in> set new1" by auto
    then show "q \<in> {q \<in> set (p # ps). fillable s q \<and> adjacent_mines (cell_of s q) = 0}"
    proof cases
      case 1
      with newg have "in_grid (N s) q" by blast
      from 1 new f1 [OF this] a1 [OF this] show ?thesis by auto
    next
      case 2
      then show ?thesis by (auto simp: new1_def split: if_splits)
    qed
  next
    fix q assume q: "q \<in> {q \<in> set (p # ps). fillable s q \<and> adjacent_mines (cell_of s q) = 0}"
    with Cons.prems(2) have qg: "in_grid (N s) q" by auto
    show "q \<in> set (new @ new1)"
    proof (cases "q = p")
      case True
      with q show ?thesis by (simp add: new1_def)
    next
      case False
      with q new f1 [OF qg] a1 [OF qg] show ?thesis by auto
    qed
  qed
  ultimately show ?case by blast
qed

section \<open>What a flood fill may change\<close>

text \<open>
  \<open>reveals s s'\<close>: the state \<open>s'\<close> is \<open>s\<close> but for cells that were not revealed, not
  flagged and held no mine, and are now revealed.
\<close>

definition reveals :: "game \<Rightarrow> game \<Rightarrow> bool" where
  "reveals s s' \<longleftrightarrow>
     s' = s\<lparr>board := board s'\<rparr> \<and> well_formed s'
     \<and> (\<forall>q. in_grid (N s) q \<longrightarrow>
           cell_of s' q = cell_of s q
           \<or> fillable s q \<and> cell_of s' q = (cell_of s q)\<lparr>is_revealed := True\<rparr>)"

lemma reveals_refl: "well_formed s \<Longrightarrow> reveals s s"
  by (simp add: reveals_def)

lemma reveals_N: "reveals s s' \<Longrightarrow> N s' = N s"
  by (metis reveals_def game.select_convs(1) game.surjective game.update_convs(4))

lemma reveals_trans:
  assumes "reveals s s1" and "reveals s1 s2"
  shows "reveals s s2"
proof -
  from assms(1) have n: "N s1 = N s" by (rule reveals_N)
  from assms have e: "s1 = s\<lparr>board := board s1\<rparr>" "s2 = s1\<lparr>board := board s2\<rparr>"
    by (simp_all add: reveals_def)
  have "s2 = s\<lparr>board := board s2\<rparr>"
    by (subst e(2), subst e(1)) simp
  moreover have "cell_of s2 q = cell_of s q
           \<or> fillable s q \<and> cell_of s2 q = (cell_of s q)\<lparr>is_revealed := True\<rparr>"
    if q: "in_grid (N s) q" for q
  proof -
    from assms(1) q have 1: "cell_of s1 q = cell_of s q
           \<or> fillable s q \<and> cell_of s1 q = (cell_of s q)\<lparr>is_revealed := True\<rparr>"
      unfolding reveals_def by blast
    from assms(2) q n have 2: "cell_of s2 q = cell_of s1 q
           \<or> fillable s1 q \<and> cell_of s2 q = (cell_of s1 q)\<lparr>is_revealed := True\<rparr>"
      unfolding reveals_def by metis
    from 1 2 show ?thesis by (auto simp: fillable_def)
  qed
  ultimately show ?thesis using assms(2) by (simp add: reveals_def)
qed

lemma flood_neighbours_reveals:
  assumes "well_formed s"
  shows "\<exists>s' stack'. for_each (neighbours (N s) r c) flood_neighbour (s, stack) = Inr (s', stack')
           \<and> reveals s s'"
proof -
  have g: "\<forall>q \<in> set (neighbours (N s) r c). in_grid (N s) q"
    by (simp add: neighbours_in_grid)
  from flood_neighbours_cells [OF assms g, of stack] obtain b' new where
    run: "for_each (neighbours (N s) r c) flood_neighbour (s, stack)
            = Inr (s\<lparr>board := b'\<rparr>, new @ stack)"
    and wf': "well_formed (s\<lparr>board := b'\<rparr>)"
    and cells: "\<forall>q. in_grid (N s) q \<longrightarrow>
               cell_of (s\<lparr>board := b'\<rparr>) q
                 = (if q \<in> set (neighbours (N s) r c) \<and> fillable s q
                    then (cell_of s q)\<lparr>is_revealed := True\<rparr> else cell_of s q)"
    by blast
  have "cell_of (s\<lparr>board := b'\<rparr>) q = cell_of s q
           \<or> fillable s q \<and> cell_of (s\<lparr>board := b'\<rparr>) q = (cell_of s q)\<lparr>is_revealed := True\<rparr>"
    if "in_grid (N s) q" for q
    using cells that by metis
  with wf' have "reveals s (s\<lparr>board := b'\<rparr>)" by (simp add: reveals_def)
  with run show ?thesis by blast
qed

lemma flood_loop_reveals:
  "well_formed s \<Longrightarrow> \<exists>s' tr. flood_loop s stack visited = Inr (s', tr) \<and> reveals s s'"
proof (induction s stack visited rule: flood_loop.induct)
  case (1 s visited)
  then show ?case by (simp add: reveals_refl)
next
  case (2 s r c stack visited)
  from flood_neighbours_reveals [OF "2.prems", of r c stack] obtain s1 stack1 where
    one: "for_each (neighbours (N s) r c) flood_neighbour (s, stack) = Inr (s1, stack1)"
    and r1: "reveals s s1"
    by blast
  from r1 have "well_formed s1" by (simp add: reveals_def)
  from "2.IH" [OF one refl this] obtain s' tr where
    rest: "flood_loop s1 stack1 (visited @ [(r, c)]) = Inr (s', tr)" and r2: "reveals s1 s'"
    by blast
  from one rest have "flood_loop s ((r, c) # stack) visited = Inr (s', tr)" by simp
  with reveals_trans [OF r1 r2] show ?case by blast
qed

lemma flood_fill_reveals:
  "well_formed s \<Longrightarrow> \<exists>s'. flood_fill s row col = Inr s' \<and> reveals s s'"
  using flood_loop_reveals [of s "[(row, col)]" "[]"]
  by (auto simp: flood_fill_def)

section \<open>The two clicks on a board of the right shape\<close>

lemma check_win_loop_in_grid:
  assumes "well_formed s" and "\<forall>p \<in> set ps. in_grid (N s) p"
  shows "check_win_loop s ps
           = Inr (\<forall>p \<in> set ps. is_mine (cell_of s p) \<or> is_revealed (cell_of s p))"
  using assms(2)
proof (induction ps)
  case Nil
  then show ?case by simp
next
  case (Cons p ps)
  obtain r c where p: "p = (r, c)" by (cases p)
  from Cons.prems p have "in_grid (N s) (r, c)" by simp
  from locate_in_grid [OF assms(1) this] Cons show ?case
    by (auto simp: p cell_at_cell_of)
qed

text \<open>Every cell of the grid without a mine is revealed.\<close>

definition all_safe_revealed :: "game \<Rightarrow> bool" where
  "all_safe_revealed s \<longleftrightarrow>
     (\<forall>q \<in> set (all_positions (N s)). is_mine (cell_of s q) \<or> is_revealed (cell_of s q))"

lemma all_safe_revealed_iff:
  "all_safe_revealed s \<longleftrightarrow>
     (\<forall>q. in_grid (N s) q \<longrightarrow> is_mine (cell_of s q) \<or> is_revealed (cell_of s q))"
  by (simp add: all_safe_revealed_def set_all_positions Ball_def)

lemma check_win_in_grid:
  assumes "well_formed s"
  shows "check_win s = Inr (all_safe_revealed s)"
  unfolding check_win_def all_safe_revealed_def
  by (rule check_win_loop_in_grid [OF assms]) (simp add: set_all_positions)

lemma reveals_cell_upd:
  assumes "well_formed s" and "in_grid (N s) p" and "fillable s p"
  shows "reveals s (s\<lparr>board := cell_upd (board s) (nat (fst p), nat (snd p))
                               (\<lambda>cl. cl\<lparr>is_revealed := True\<rparr>)\<rparr>)"
  using assms cell_of_cell_upd [OF assms(1,2)]
  by (auto simp: reveals_def)

lemma left_click_mine_result:
  assumes wf: "well_formed s" and run: "\<not> game_over s"
    and pg: "in_grid (N s) p"
    and loc: "locate (board s) row col = Inr (nat (fst p), nat (snd p))"
    and mine: "is_mine (cell_of s p)"
    and unflagged: "\<not> is_flagged (cell_of s p)"
    and unrevealed: "\<not> is_revealed (cell_of s p)"
  shows "\<exists>b'. left_click s row col
                 = Inr (s\<lparr>board := b', info_label := ''You hit a mine! Game Over!'',
                          game_over := True\<rparr>)
           \<and> well_formed (s\<lparr>board := b'\<rparr>)
           \<and> (\<forall>q. in_grid (N s) q \<longrightarrow>
                 cell_of (s\<lparr>board := b'\<rparr>) q
                   = (if is_mine (cell_of s q)
                      then (cell_of s q)\<lparr>is_revealed := True\<rparr> else cell_of s q))"
proof -
  define s1 where "s1 = s\<lparr>board := cell_upd (board s) (nat (fst p), nat (snd p))
                                    (\<lambda>cl. cl\<lparr>is_revealed := True\<rparr>)\<rparr>"
  define s2 where "s2 = s1\<lparr>info_label := ''You hit a mine! Game Over!'', game_over := True\<rparr>"
  have c1: "cell_of s1 q = (if q = p then (cell_of s q)\<lparr>is_revealed := True\<rparr>
                            else cell_of s q)" if "in_grid (N s) q" for q
    using cell_of_cell_upd [OF wf pg that] by (simp add: s1_def)
  have wf2: "well_formed s2" using wf by (simp add: s2_def s1_def)
  have n2: "N s2 = N s" by (simp add: s2_def s1_def)
  have c2: "cell_of s2 = cell_of s1" by (simp add: s2_def)
  have "\<forall>p \<in> set (all_positions (N s2)). in_grid (N s2) p"
    by (simp add: set_all_positions)
  from show_all_mines_loop [OF wf2 this distinct_all_positions] obtain b' where
    loop: "show_all_mines s2 = Inr (s2\<lparr>board := b'\<rparr>)"
    and wf': "well_formed (s2\<lparr>board := b'\<rparr>)"
    and cells: "\<forall>q. in_grid (N s2) q \<longrightarrow>
               cell_of (s2\<lparr>board := b'\<rparr>) q
                 = (if q \<in> set (all_positions (N s2)) \<and> is_mine (cell_of s2 q)
                    then (cell_of s2 q)\<lparr>is_revealed := True\<rparr> else cell_of s2 q)"
    unfolding show_all_mines_def by blast
  have eq: "s2\<lparr>board := b'\<rparr>
              = s\<lparr>board := b', info_label := ''You hit a mine! Game Over!'', game_over := True\<rparr>"
    by (simp add: s2_def s1_def)
  have cb: "cell_of (s2\<lparr>board := b'\<rparr>) = cell_of (s\<lparr>board := b'\<rparr>)"
    by (simp add: cell_of_def fun_eq_iff)
  have click: "left_click s row col = Inr (s2\<lparr>board := b'\<rparr>)"
    using run loc mine unflagged unrevealed pg c1 [OF pg] loop
    by (simp add: left_click_def cell_at_cell_of Let_def s1_def [symmetric] s2_def [symmetric])
  have "cell_of (s\<lparr>board := b'\<rparr>) q
          = (if is_mine (cell_of s q) then (cell_of s q)\<lparr>is_revealed := True\<rparr>
             else cell_of s q)" if "in_grid (N s) q" for q
    using cells [rule_format, of q] that mine
    by (auto simp: n2 c2 cb c1 [OF that] set_all_positions)
  moreover have "well_formed (s\<lparr>board := b'\<rparr>)"
    using wf' n2 by (simp add: well_formed_def)
  ultimately show ?thesis using click unfolding eq by blast
qed

lemma left_click_safe_result:
  assumes wf: "well_formed s" and run: "\<not> game_over s"
    and pg: "in_grid (N s) p"
    and loc: "locate (board s) row col = Inr (nat (fst p), nat (snd p))"
    and fill: "fillable s p"
  shows "\<exists>s2. reveals s s2 \<and> is_revealed (cell_of s2 p)
           \<and> left_click s row col
               = Inr (if all_safe_revealed s2
                      then s2\<lparr>info_label := ''Congratulations, you won!'', game_over := True\<rparr>
                      else s2)"
proof -
  define s1 where "s1 = s\<lparr>board := cell_upd (board s) (nat (fst p), nat (snd p))
                                    (\<lambda>cl. cl\<lparr>is_revealed := True\<rparr>)\<rparr>"
  have r1: "reveals s s1" unfolding s1_def using wf pg fill by (rule reveals_cell_upd)
  then have wf1: "well_formed s1" by (simp add: reveals_def)
  have c1: "cell_of s1 p = (cell_of s p)\<lparr>is_revealed := True\<rparr>"
    using cell_of_cell_upd [OF wf pg pg] by (simp add: s1_def)
  obtain s2 where r2: "reveals s1 s2"
    and fl: "(if adjacent_mines (cell_of s1 p) = 0 then flood_fill s1 row col else Inr s1) = Inr s2"
    using flood_fill_reveals [OF wf1, of row col] reveals_refl [OF wf1] by (cases "adjacent_mines (cell_of s1 p) = 0") auto
  from r2 have wf2: "well_formed s2" by (simp add: reveals_def)
  have n1: "N s1 = N s" by (simp add: s1_def)
  from r2 pg n1 have "cell_of s2 p = cell_of s1 p
           \<or> fillable s1 p \<and> cell_of s2 p = (cell_of s1 p)\<lparr>is_revealed := True\<rparr>"
    unfolding reveals_def by metis
  with c1 have rev: "is_revealed (cell_of s2 p)" by auto
  have "left_click s row col
               = Inr (if all_safe_revealed s2
                      then s2\<lparr>info_label := ''Congratulations, you won!'', game_over := True\<rparr>
                      else s2)"
    using run loc fill fl c1 check_win_in_grid [OF wf2]
    by (simp add: left_click_def cell_at_cell_of Let_def s1_def [symmetric] fillable_def)
  with reveals_trans [OF r1 r2] rev show ?thesis by blast
qed

lemma right_click_result:
  assumes wf: "well_formed s" and run: "\<not> game_over s"
    and pg: "in_grid (N s) p"
    and loc: "locate (board s) row col = Inr (nat (fst p), nat (snd p))"
  shows "right_click s row col
           = Inr (if is_revealed (cell_of s p) then s
                  else s\<lparr>board := cell_upd (board s) (nat (fst p), nat (snd p))
                                     (\<lambda>cl. cl\<lparr>is_flagged := \<not> is_flagged cl\<rparr>)\<rparr>)"
  using run loc by (simp add: right_click_def cell_at_cell_of)

section \<open>Winning\<close>

text \<open>
  The scenario of the spec: the board of side 3 whose only mine is at (2, 2), as
  \<^verbatim>\<open>MinesweeperWindow(3, 1)\<close> builds it, and the same board with every cell but the
  mine revealed and the game won.
\<close>

definition win_example :: game where
  "win_example =
     \<lparr>N = 3, M = 1, game_over = False,
      board =
        [[\<lparr>is_mine = False, adjacent_mines = 0, is_revealed = False, is_flagged = False\<rparr>,
          \<lparr>is_mine = False, adjacent_mines = 0, is_revealed = False, is_flagged = False\<rparr>,
          \<lparr>is_mine = False, adjacent_mines = 0, is_revealed = False, is_flagged = False\<rparr>],
         [\<lparr>is_mine = False, adjacent_mines = 0, is_revealed = False, is_flagged = False\<rparr>,
          \<lparr>is_mine = False, adjacent_mines = 1, is_revealed = False, is_flagged = False\<rparr>,
          \<lparr>is_mine = False, adjacent_mines = 1, is_revealed = False, is_flagged = False\<rparr>],
         [\<lparr>is_mine = False, adjacent_mines = 0, is_revealed = False, is_flagged = False\<rparr>,
          \<lparr>is_mine = False, adjacent_mines = 1, is_revealed = False, is_flagged = False\<rparr>,
          \<lparr>is_mine = True, adjacent_mines = - 1, is_revealed = False, is_flagged = False\<rparr>]],
      info_label = ''Be careful!''\<rparr>"

definition win_example_won :: game where
  "win_example_won =
     \<lparr>N = 3, M = 1, game_over = True,
      board =
        [[\<lparr>is_mine = False, adjacent_mines = 0, is_revealed = True, is_flagged = False\<rparr>,
          \<lparr>is_mine = False, adjacent_mines = 0, is_revealed = True, is_flagged = False\<rparr>,
          \<lparr>is_mine = False, adjacent_mines = 0, is_revealed = True, is_flagged = False\<rparr>],
         [\<lparr>is_mine = False, adjacent_mines = 0, is_revealed = True, is_flagged = False\<rparr>,
          \<lparr>is_mine = False, adjacent_mines = 1, is_revealed = True, is_flagged = False\<rparr>,
          \<lparr>is_mine = False, adjacent_mines = 1, is_revealed = True, is_flagged = False\<rparr>],
         [\<lparr>is_mine = False, adjacent_mines = 0, is_revealed = True, is_flagged = False\<rparr>,
          \<lparr>is_mine = False, adjacent_mines = 1, is_revealed = True, is_flagged = False\<rparr>,
          \<lparr>is_mine = True, adjacent_mines = - 1, is_revealed = False, is_flagged = False\<rparr>]],
      info_label = ''Congratulations, you won!''\<rparr>"

lemma win_example_generated: "MinesweeperWindow_init 3 1 [(2, 2)] = Inr win_example"
  by (simp add: MinesweeperWindow_init_def place_mines_def place_mine_def
      calculate_adjacency_def adjacency_cell_def count_adjacent_def count_neighbour_def
      all_positions_def neighbours_def py_range_def locate_def py_index_def
      cell_at.simps cell_upd.simps blank_cell_def win_example_def Let_def
      numeral_3_eq_3 upto.simps)

lemma win_example_click: "left_click win_example 0 0 = Inr win_example_won"
  by (simp add: left_click_def flood_fill_def flood_neighbour_def check_win_def
      all_positions_def neighbours_def py_range_def locate_def py_index_def
      cell_at.simps cell_upd.simps win_example_def win_example_won_def Let_def upto.simps)

lemma win_example_won_cells:
  "\<forall>q. in_grid 3 q \<longrightarrow> is_revealed (cell_of win_example_won q) = (q \<noteq> (2, 2))"
proof -
  have "\<forall>q \<in> set (all_positions 3). is_revealed (cell_of win_example_won q) = (q \<noteq> (2, 2))"
    by (simp add: all_positions_def py_range_def upto.simps win_example_won_def cell_of_def)
  then show ?thesis by (simp add: set_all_positions)
qed

text \<open>
  C4. In a game in progress, a left click on a cell that holds no mine and is neither
  flagged nor revealed returns, and when it has returned (flood fill included)
  \<^verbatim>\<open>game_over\<close> is set if and only if every cell without a mine is revealed; the
  outcome is then a win, and the game goes on otherwise. Whether a mine is revealed
  or flagged plays no part. On the board of side 3 with its only mine at (2, 2), as
  generated, a left click at (0, 0) reveals the eight cells without a mine and wins.
\<close>

theorem left_click_win_iff:
  assumes "well_formed s" and "\<not> game_over s" and "in_grid (N s) (row, col)"
    and "\<not> is_mine (cell_of s (row, col))" and "\<not> is_flagged (cell_of s (row, col))"
    and "\<not> is_revealed (cell_of s (row, col))"
  shows "(\<exists>s'. left_click s row col = Inr s' \<and> N s' = N s
            \<and> (game_over s' \<longleftrightarrow>
                 (\<forall>q. in_grid (N s) q \<longrightarrow> is_mine (cell_of s' q) \<or> is_revealed (cell_of s' q)))
            \<and> outcome_of s' = (if game_over s' then Won else Continue))
         \<and> MinesweeperWindow_init 3 1 [(2, 2)] = Inr win_example
         \<and> left_click win_example 0 0 = Inr win_example_won
         \<and> outcome_of win_example_won = Won
         \<and> (\<forall>q. in_grid 3 q \<longrightarrow> is_revealed (cell_of win_example_won q) = (q \<noteq> (2, 2)))"
proof -
  have loc: "locate (board s) row col = Inr (nat (fst (row, col)), nat (snd (row, col)))"
    using locate_in_grid [OF assms(1,3)] by simp
  have "fillable s (row, col)" using assms(4-6) by (simp add: fillable_def)
  from left_click_safe_result [OF assms(1-3) loc this] obtain s2 where
    r: "reveals s s2"
    and click: "left_click s row col
               = Inr (if all_safe_revealed s2
                      then s2\<lparr>info_label := ''Congratulations, you won!'', game_over := True\<rparr>
                      else s2)"
    by blast
  from r have n: "N s2 = N s" by (rule reveals_N)
  from r have "s2 = s\<lparr>board := board s2\<rparr>" by (simp add: reveals_def)
  then have "game_over s2 = game_over s"
    by (metis game.select_convs(3) game.surjective game.update_convs(4))
  with assms(2) have go: "\<not> game_over s2" by simp
  let ?s' = "if all_safe_revealed s2
             then s2\<lparr>info_label := ''Congratulations, you won!'', game_over := True\<rparr> else s2"
  have "game_over ?s' = all_safe_revealed s2" using go by simp
  moreover have "all_safe_revealed s2 \<longleftrightarrow>
      (\<forall>q. in_grid (N s) q \<longrightarrow> is_mine (cell_of ?s' q) \<or> is_revealed (cell_of ?s' q))"
    by (simp add: all_safe_revealed_iff n)
  moreover have "outcome_of ?s' = (if game_over ?s' then Won else Continue)"
    using go by (simp add: outcome_of_def)
  moreover have "N ?s' = N s" using n by simp
  ultimately have "\<exists>s'. left_click s row col = Inr s' \<and> N s' = N s
            \<and> (game_over s' \<longleftrightarrow>
                 (\<forall>q. in_grid (N s) q \<longrightarrow> is_mine (cell_of s' q) \<or> is_revealed (cell_of s' q)))
            \<and> outcome_of s' = (if game_over s' then Won else Continue)"
    using click by metis
  moreover have "outcome_of win_example_won = Won"
    by (simp add: outcome_of_def win_example_won_def)
  ultimately show ?thesis
    using win_example_generated win_example_click win_example_won_cells by blast
qed

lemma fresh_example_click: "left_click fresh_example 1 1 =
  Inr (fresh_example\<lparr>board :=
         [[\<lparr>is_mine = True, adjacent_mines = - 1, is_revealed = False, is_flagged = False\<rparr>,
           \<lparr>is_mine = False, adjacent_mines = 1, is_revealed = False, is_flagged = False\<rparr>],
          [\<lparr>is_mine = False, adjacent_mines = 1, is_revealed = False, is_flagged = False\<rparr>,
           \<lparr>is_mine = False, adjacent_mines = 1, is_revealed = True, is_flagged = False\<rparr>]]\<rparr>)"
  by (simp add: fresh_example_def left_click_def locate_def
      py_index_def cell_at.simps cell_upd.simps check_win_def all_positions_def py_range_def
      Let_def upto.simps)

theorem left_click_win_iff_witness:
  "well_formed fresh_example \<and> \<not> game_over fresh_example
   \<and> in_grid (N fresh_example) (1, 1)
   \<and> \<not> is_mine (cell_of fresh_example (1, 1))
   \<and> \<not> is_flagged (cell_of fresh_example (1, 1))
   \<and> \<not> is_revealed (cell_of fresh_example (1, 1))
   \<and> (\<exists>s'. left_click fresh_example 1 1 = Inr s'
          \<and> \<not> game_over s' \<and> \<not> is_revealed (cell_of s' (0, 1)) \<and> \<not> is_mine (cell_of s' (0, 1))
          \<and> outcome_of s' = Continue)"
proof -
  have h: "well_formed fresh_example" "\<not> game_over fresh_example"
    "in_grid (N fresh_example) (1, 1)" "\<not> is_mine (cell_of fresh_example (1, 1))"
    "\<not> is_flagged (cell_of fresh_example (1, 1))"
    "\<not> is_revealed (cell_of fresh_example (1, 1))"
    by (simp_all add: fresh_example_def well_formed_def in_grid_def cell_of_def)
  from left_click_win_iff [OF h] obtain s' where
    click: "left_click fresh_example 1 1 = Inr s'"
    and iff: "game_over s' \<longleftrightarrow>
       (\<forall>q. in_grid (N fresh_example) q \<longrightarrow> is_mine (cell_of s' q) \<or> is_revealed (cell_of s' q))"
    and out: "outcome_of s' = (if game_over s' then Won else Continue)"
    by blast
  from click fresh_example_click have c: "\<not> is_revealed (cell_of s' (0, 1))"
    "\<not> is_mine (cell_of s' (0, 1))"
    by (auto simp: cell_of_def)
  have "in_grid (N fresh_example) (0, 1)" by (simp add: fresh_example_def in_grid_def)
  with iff c have "\<not> game_over s'" by blast
  with out c click h show ?thesis by auto
qed

section \<open>Games played\<close>

text \<open>
  \<open>plays s s'\<close>: left and right clicks that return lead from \<open>s\<close> to \<open>s'\<close>. A state is
  reachable when clicks lead to it from a window that \<^verbatim>\<open>on_start_game\<close> may open (the
  parameters pass its checks, and \<^verbatim>\<open>random.sample\<close> has returned a sample).
\<close>

inductive plays :: "game \<Rightarrow> game \<Rightarrow> bool" where
  start: "plays s s"
| left: "plays s s1 \<Longrightarrow> left_click s1 row col = Inr s2 \<Longrightarrow> plays s s2"
| right: "plays s s1 \<Longrightarrow> right_click s1 row col = Inr s2 \<Longrightarrow> plays s s2"

definition reachable :: "game \<Rightarrow> bool" where
  "reachable s' \<longleftrightarrow>
     (\<exists>n m mp s. 0 < n \<and> 0 \<le> m \<and> m < n * n \<and> is_sample (all_positions n) m mp
        \<and> MinesweeperWindow_init n m mp = Inr s \<and> plays s s')"

lemma reveals_fields:
  assumes "reveals s s'"
  shows "N s' = N s" and "M s' = M s" and "game_over s' = game_over s"
    and "info_label s' = info_label s"
proof -
  from assms obtain b where "s' = s\<lparr>board := b\<rparr>" unfolding reveals_def by blast
  then show "N s' = N s" "M s' = M s" "game_over s' = game_over s"
    "info_label s' = info_label s"
    by simp_all
qed

lemma reveals_cell:
  assumes "reveals s s'" and "in_grid (N s) q"
  shows "cell_of s' q = cell_of s q
           \<or> fillable s q \<and> cell_of s' q = (cell_of s q)\<lparr>is_revealed := True\<rparr>"
  using assms unfolding reveals_def by blast

text \<open>What a left click that returns has done, case by case.\<close>

lemma left_click_step:
  assumes wf: "well_formed s" and click: "left_click s row col = Inr s'"
  shows "s' = s
    \<or> \<not> game_over s
      \<and> ((\<exists>b'. s' = s\<lparr>board := b', info_label := ''You hit a mine! Game Over!'',
                        game_over := True\<rparr>
               \<and> well_formed (s\<lparr>board := b'\<rparr>)
               \<and> (\<forall>q. in_grid (N s) q \<longrightarrow>
                     cell_of (s\<lparr>board := b'\<rparr>) q
                       = (if is_mine (cell_of s q)
                          then (cell_of s q)\<lparr>is_revealed := True\<rparr> else cell_of s q)))
          \<or> (\<exists>s2. reveals s s2
                \<and> (s' = s2 \<and> \<not> all_safe_revealed s2
                    \<or> s' = s2\<lparr>info_label := ''Congratulations, you won!'', game_over := True\<rparr>
                      \<and> all_safe_revealed s2)))"
proof (cases "game_over s")
  case True
  with click show ?thesis by (simp add: left_click_def)
next
  case False
  show ?thesis
  proof (cases "locate (board s) row col")
    case (Inl e)
    with False click show ?thesis by (simp add: left_click_def)
  next
    case (Inr ij)
    from locate_some_in_grid [OF wf Inr] obtain p where
      pg: "in_grid (N s) p" and ij: "ij = (nat (fst p), nat (snd p))"
      by blast
    note loc = Inr [unfolded ij]
    have at: "cell_at (board s) (nat (fst p), nat (snd p)) = cell_of s p"
      using cell_at_cell_of [of s "fst p" "snd p"] by simp
    show ?thesis
    proof (cases "is_flagged (cell_of s p) \<or> is_revealed (cell_of s p)")
      case True
      with False loc click at show ?thesis by (simp add: left_click_def)
    next
      case open_cell: False
      show ?thesis
      proof (cases "is_mine (cell_of s p)")
        case True
        from open_cell have "\<not> is_flagged (cell_of s p)" "\<not> is_revealed (cell_of s p)"
          by simp_all
        from left_click_mine_result [OF wf False pg loc True this] obtain b' where
          res: "left_click s row col
                 = Inr (s\<lparr>board := b', info_label := ''You hit a mine! Game Over!'',
                          game_over := True\<rparr>)"
          and rest: "well_formed (s\<lparr>board := b'\<rparr>)
               \<and> (\<forall>q. in_grid (N s) q \<longrightarrow>
                     cell_of (s\<lparr>board := b'\<rparr>) q
                       = (if is_mine (cell_of s q)
                          then (cell_of s q)\<lparr>is_revealed := True\<rparr> else cell_of s q))"
          by blast
        from res click have "s' = s\<lparr>board := b', info_label := ''You hit a mine! Game Over!'',
                          game_over := True\<rparr>"
          by simp
        with rest False show ?thesis by blast
      next
        case safe: False
        with open_cell have "fillable s p" by (simp add: fillable_def)
        from left_click_safe_result [OF wf False pg loc this] obtain s2 where
          r: "reveals s s2"
          and res: "left_click s row col
               = Inr (if all_safe_revealed s2
                      then s2\<lparr>info_label := ''Congratulations, you won!'', game_over := True\<rparr>
                      else s2)"
          by blast
        from res click have "s' = (if all_safe_revealed s2
                      then s2\<lparr>info_label := ''Congratulations, you won!'', game_over := True\<rparr>
                      else s2)"
          by simp
        then have "s' = s2 \<and> \<not> all_safe_revealed s2
                    \<or> s' = s2\<lparr>info_label := ''Congratulations, you won!'', game_over := True\<rparr>
                      \<and> all_safe_revealed s2"
          by (cases "all_safe_revealed s2") simp_all
        with r False show ?thesis by blast
      qed
    qed
  qed
qed

lemma right_click_step:
  assumes wf: "well_formed s" and click: "right_click s row col = Inr s'"
  shows "s' = s
    \<or> \<not> game_over s
      \<and> (\<exists>p. in_grid (N s) p \<and> \<not> is_revealed (cell_of s p)
            \<and> s' = s\<lparr>board := cell_upd (board s) (nat (fst p), nat (snd p))
                                  (\<lambda>cl. cl\<lparr>is_flagged := \<not> is_flagged cl\<rparr>)\<rparr>)"
proof (cases "game_over s")
  case True
  with click show ?thesis by (simp add: right_click_def)
next
  case False
  show ?thesis
  proof (cases "locate (board s) row col")
    case (Inl e)
    with False click show ?thesis by (simp add: right_click_def)
  next
    case (Inr ij)
    from locate_some_in_grid [OF wf Inr] obtain p where
      pg: "in_grid (N s) p" and ij: "ij = (nat (fst p), nat (snd p))"
      by blast
    from right_click_result [OF wf False pg Inr [unfolded ij]] click
    have "s' = (if is_revealed (cell_of s p) then s
                else s\<lparr>board := cell_upd (board s) (nat (fst p), nat (snd p))
                                   (\<lambda>cl. cl\<lparr>is_flagged := \<not> is_flagged cl\<rparr>)\<rparr>)"
      by simp
    with pg False show ?thesis
    proof (cases "is_revealed (cell_of s p)")
      case True
      with \<open>s' = _\<close> show ?thesis by simp
    next
      case unrev: False
      with \<open>s' = _\<close> have "s' = s\<lparr>board := cell_upd (board s) (nat (fst p), nat (snd p))
                                   (\<lambda>cl. cl\<lparr>is_flagged := \<not> is_flagged cl\<rparr>)\<rparr>"
        by simp
      with pg False unrev show ?thesis by blast
    qed
  qed
qed

text \<open>
  \<open>same_layout s s'\<close>: the same shape, parameters, mines and counts; only what is
  revealed, what is flagged, the label and \<^verbatim>\<open>game_over\<close> may differ.
\<close>

definition same_layout :: "game \<Rightarrow> game \<Rightarrow> bool" where
  "same_layout s s' \<longleftrightarrow>
     well_formed s' \<and> N s' = N s \<and> M s' = M s
     \<and> (\<forall>q. in_grid (N s) q \<longrightarrow>
           is_mine (cell_of s' q) = is_mine (cell_of s q)
           \<and> adjacent_mines (cell_of s' q) = adjacent_mines (cell_of s q))"

lemma same_layout_refl: "well_formed s \<Longrightarrow> same_layout s s"
  by (simp add: same_layout_def)

lemma same_layout_trans: "same_layout s s1 \<Longrightarrow> same_layout s1 s2 \<Longrightarrow> same_layout s s2"
  unfolding same_layout_def by metis

lemma same_layout_fields:
  "same_layout s s' \<Longrightarrow>
     same_layout s (s'\<lparr>info_label := l, game_over := g\<rparr>)"
  by (simp add: same_layout_def)

lemma reveals_same_layout:
  assumes "reveals s s'"
  shows "same_layout s s'"
proof -
  have "is_mine (cell_of s' q) = is_mine (cell_of s q)
           \<and> adjacent_mines (cell_of s' q) = adjacent_mines (cell_of s q)"
    if "in_grid (N s) q" for q
    using reveals_cell [OF assms that] by auto
  moreover from assms have "well_formed s'" by (simp add: reveals_def)
  ultimately show ?thesis
    using reveals_fields [OF assms] by (simp add: same_layout_def)
qed

lemma left_click_same_layout:
  assumes wf: "well_formed s" and click: "left_click s row col = Inr s'"
  shows "same_layout s s'"
proof -
  from left_click_step [OF wf click] consider
    (same) "s' = s"
  | (lost) b' where "s' = s\<lparr>board := b', info_label := ''You hit a mine! Game Over!'',
                        game_over := True\<rparr>"
      "well_formed (s\<lparr>board := b'\<rparr>)"
      "\<forall>q. in_grid (N s) q \<longrightarrow>
                     cell_of (s\<lparr>board := b'\<rparr>) q
                       = (if is_mine (cell_of s q)
                          then (cell_of s q)\<lparr>is_revealed := True\<rparr> else cell_of s q)"
  | (safe) s2 where "reveals s s2"
      "s' = s2 \<or> s' = s2\<lparr>info_label := ''Congratulations, you won!'', game_over := True\<rparr>"
    by blast
  then show ?thesis
  proof cases
    case same
    with wf show ?thesis by (simp add: same_layout_refl)
  next
    case lost
    have "is_mine (cell_of (s\<lparr>board := b'\<rparr>) q) = is_mine (cell_of s q)
           \<and> adjacent_mines (cell_of (s\<lparr>board := b'\<rparr>) q) = adjacent_mines (cell_of s q)"
      if "in_grid (N s) q" for q
      using lost(3) [rule_format, OF that] by simp
    with lost(2) have "same_layout s (s\<lparr>board := b'\<rparr>)"
      by (simp add: same_layout_def)
    from same_layout_fields [OF this] show ?thesis
      unfolding lost(1) by simp
  next
    case safe
    from reveals_same_layout [OF safe(1)] same_layout_fields safe(2) show ?thesis
      by blast
  qed
qed

lemma right_click_same_layout:
  assumes wf: "well_formed s" and click: "right_click s row col = Inr s'"
  shows "same_layout s s'"
proof -
  from right_click_step [OF wf click] consider
    (same) "s' = s"
  | (toggle) p where "in_grid (N s) p"
      "s' = s\<lparr>board := cell_upd (board s) (nat (fst p), nat (snd p))
                                  (\<lambda>cl. cl\<lparr>is_flagged := \<not> is_flagged cl\<rparr>)\<rparr>"
    by blast
  then show ?thesis
  proof cases
    case same
    with wf show ?thesis by (simp add: same_layout_refl)
  next
    case toggle
    have "is_mine (cell_of s' q) = is_mine (cell_of s q)
           \<and> adjacent_mines (cell_of s' q) = adjacent_mines (cell_of s q)"
      if "in_grid (N s) q" for q
      unfolding toggle(2) using cell_of_cell_upd [OF wf toggle(1) that] by simp
    with wf show ?thesis
      unfolding toggle(2) by (simp add: same_layout_def)
  qed
qed

lemma plays_same_layout:
  assumes "plays s s'" and "well_formed s"
  shows "same_layout s s'"
  using assms
proof (induction rule: plays.induct)
  case (start s)
  then show ?case by (rule same_layout_refl)
next
  case (left s s1 row col s2)
  then have l: "same_layout s s1" by simp
  then have "well_formed s1" by (simp add: same_layout_def)
  from same_layout_trans [OF l left_click_same_layout [OF this left.hyps(2)]] show ?case .
next
  case (right s s1 row col s2)
  then have l: "same_layout s s1" by simp
  then have "well_formed s1" by (simp add: same_layout_def)
  from same_layout_trans [OF l right_click_same_layout [OF this right.hyps(2)]] show ?case .
qed

lemma same_layout_mines:
  assumes "well_formed s" and "same_layout s s'"
  shows "count_cells is_mine (board s') = count_cells is_mine (board s)"
proof -
  from assms(2) have wf': "well_formed s'" and n: "N s' = N s"
    and m: "\<And>q. in_grid (N s) q \<Longrightarrow> is_mine (cell_of s' q) = is_mine (cell_of s q)"
    unfolding same_layout_def by blast+
  have "{q. in_grid (N s') q \<and> is_mine (cell_of s' q)}
          = {q. in_grid (N s) q \<and> is_mine (cell_of s q)}"
    using m by (auto simp: n)
  then show ?thesis
    by (simp add: count_cells_card [OF wf'] count_cells_card [OF assms(1)])
qed

section \<open>The number of mines\<close>

text \<open>
  C6. The board \<^verbatim>\<open>MinesweeperWindow(n, m)\<close> builds from a sample of \<open>m\<close> positions has
  exactly \<open>m\<close> cells with \<^verbatim>\<open>is_mine\<close> set, and so has every state that left and right
  clicks lead to from it. (A sample exists only when \<open>0 \<le> m \<le> n * n\<close>; the parameters
  \<open>0 < n\<close> and \<open>0 \<le> m < n * n\<close> that \<^verbatim>\<open>on_start_game\<close> lets through are among them.)
\<close>

theorem mine_count_invariant:
  assumes "is_sample (all_positions n) m mp"
  shows "\<exists>s. MinesweeperWindow_init n m mp = Inr s
           \<and> (\<forall>s'. plays s s' \<longrightarrow> int (count_cells is_mine (board s')) = m)"
proof -
  from MinesweeperWindow_init_cells [OF assms] obtain s where
    run: "MinesweeperWindow_init n m mp = Inr s" and wf: "well_formed s" and n: "N s = n"
    and cells: "\<forall>q. in_grid n q \<longrightarrow> is_mine (cell_of s q) = (q \<in> set mp)"
    by blast
  note smp = sample_in_grid [OF assms]
  have "{q. in_grid (N s) q \<and> is_mine (cell_of s q)} = set mp"
    using cells smp(4) by (auto simp: n)
  then have "count_cells is_mine (board s) = length mp"
    by (simp add: count_cells_card [OF wf] distinct_card [OF smp(3)])
  with smp(1,5) have c: "int (count_cells is_mine (board s)) = m" by simp
  have "int (count_cells is_mine (board s')) = m" if "plays s s'" for s'
    using same_layout_mines [OF wf plays_same_layout [OF that wf]] c by simp
  with run show ?thesis by blast
qed

theorem mine_count_invariant_witness:
  "is_sample (all_positions 2) 1 [(0, 0)]
   \<and> MinesweeperWindow_init 2 1 [(0, 0)] = Inr fresh_example
   \<and> int (count_cells is_mine (board fresh_example)) = 1
   \<and> (\<exists>s'. left_click fresh_example 1 1 = Inr s' \<and> plays fresh_example s'
          \<and> int (count_cells is_mine (board s')) = 1)"
proof -
  have smp: "is_sample (all_positions 2) 1 [(0, 0)]"
    by (simp add: is_sample_def set_all_positions in_grid_def)
  from mine_count_invariant [OF smp] fresh_example_generated
  have inv: "\<forall>s'. plays fresh_example s' \<longrightarrow> int (count_cells is_mine (board s')) = 1"
    by simp
  have p0: "plays fresh_example fresh_example" by (rule plays.start)
  from plays.left [OF p0 fresh_example_click] fresh_example_click inv p0 smp
    fresh_example_generated
  show ?thesis by blast
qed

section \<open>Flags and revealed cells\<close>

lemma left_click_cells:
  assumes wf: "well_formed s" and click: "left_click s row col = Inr s'"
    and q: "in_grid (N s) q"
  shows "is_flagged (cell_of s' q) = is_flagged (cell_of s q)"
    and "is_revealed (cell_of s q) \<longrightarrow> is_revealed (cell_of s' q)"
    and "is_flagged (cell_of s q) \<and> \<not> is_revealed (cell_of s q) \<and> is_revealed (cell_of s' q)
           \<longrightarrow> is_mine (cell_of s q) \<and> \<not> game_over s \<and> outcome_of s' = Lost"
proof -
  from left_click_step [OF wf click] consider
    (same) "s' = s"
  | (lost) b' where "\<not> game_over s"
      "s' = s\<lparr>board := b', info_label := ''You hit a mine! Game Over!'',
                        game_over := True\<rparr>"
      "\<forall>q. in_grid (N s) q \<longrightarrow>
                     cell_of (s\<lparr>board := b'\<rparr>) q
                       = (if is_mine (cell_of s q)
                          then (cell_of s q)\<lparr>is_revealed := True\<rparr> else cell_of s q)"
  | (safe) s2 where "reveals s s2"
      "s' = s2 \<or> s' = s2\<lparr>info_label := ''Congratulations, you won!'', game_over := True\<rparr>"
    by blast
  then have "is_flagged (cell_of s' q) = is_flagged (cell_of s q)
    \<and> (is_revealed (cell_of s q) \<longrightarrow> is_revealed (cell_of s' q))
    \<and> (is_flagged (cell_of s q) \<and> \<not> is_revealed (cell_of s q) \<and> is_revealed (cell_of s' q)
           \<longrightarrow> is_mine (cell_of s q) \<and> \<not> game_over s \<and> outcome_of s' = Lost)"
  proof cases
    case same
    then show ?thesis by simp
  next
    case lost
    have c: "cell_of s' q = cell_of (s\<lparr>board := b'\<rparr>) q"
      unfolding lost(2) by (simp add: cell_of_def)
    have "outcome_of s' = Lost" unfolding lost(2) by (simp add: outcome_of_def)
    with lost(1) lost(3) [rule_format, OF q] show ?thesis
      unfolding c by simp
  next
    case safe
    from safe(2) have c: "cell_of s' q = cell_of s2 q" by auto
    from reveals_cell [OF safe(1) q] show ?thesis
      unfolding c by (auto simp: fillable_def)
  qed
  then show "is_flagged (cell_of s' q) = is_flagged (cell_of s q)"
    and "is_revealed (cell_of s q) \<longrightarrow> is_revealed (cell_of s' q)"
    and "is_flagged (cell_of s q) \<and> \<not> is_revealed (cell_of s q) \<and> is_revealed (cell_of s' q)
           \<longrightarrow> is_mine (cell_of s q) \<and> \<not> game_over s \<and> outcome_of s' = Lost"
    by blast+
qed

lemma right_click_cells:
  assumes wf: "well_formed s" and click: "right_click s row col = Inr s'"
    and q: "in_grid (N s) q"
  shows "is_revealed (cell_of s' q) = is_revealed (cell_of s q)"
    and "is_revealed (cell_of s q) \<longrightarrow> is_flagged (cell_of s' q) = is_flagged (cell_of s q)"
proof -
  from right_click_step [OF wf click] consider
    (same) "s' = s"
  | (toggle) p where "in_grid (N s) p" "\<not> is_revealed (cell_of s p)"
      "s' = s\<lparr>board := cell_upd (board s) (nat (fst p), nat (snd p))
                                  (\<lambda>cl. cl\<lparr>is_flagged := \<not> is_flagged cl\<rparr>)\<rparr>"
    by blast
  then have "is_revealed (cell_of s' q) = is_revealed (cell_of s q)
    \<and> (is_revealed (cell_of s q) \<longrightarrow> is_flagged (cell_of s' q) = is_flagged (cell_of s q))"
  proof cases
    case same
    then show ?thesis by simp
  next
    case toggle
    from cell_of_cell_upd [OF wf toggle(1) q] toggle(2) show ?thesis
      unfolding toggle(3) by auto
  qed
  then show "is_revealed (cell_of s' q) = is_revealed (cell_of s q)"
    and "is_revealed (cell_of s q) \<longrightarrow> is_flagged (cell_of s' q) = is_flagged (cell_of s q)"
    by blast+
qed

text \<open>
  In a state that clicks lead to from a generated board, a cell that is both flagged
  and revealed is a mine of a lost game.
\<close>

lemma plays_flags_apart:
  assumes "plays s0 s" and "well_formed s0"
    and "\<forall>q. in_grid (N s0) q \<longrightarrow> \<not> is_revealed (cell_of s0 q)"
  shows "well_formed s \<and> N s = N s0
    \<and> (\<forall>q. in_grid (N s0) q \<longrightarrow> is_flagged (cell_of s q) \<longrightarrow> is_revealed (cell_of s q) \<longrightarrow>
           is_mine (cell_of s q) \<and> game_over s \<and> outcome_of s = Lost)"
  using assms
proof (induction rule: plays.induct)
  case (start s)
  then show ?case by blast
next
  case (left s s1 row col s2)
  then have wf1: "well_formed s1" and n1: "N s1 = N s"
    and inv: "\<And>q. in_grid (N s) q \<Longrightarrow> is_flagged (cell_of s1 q) \<Longrightarrow> is_revealed (cell_of s1 q)
                 \<Longrightarrow> is_mine (cell_of s1 q) \<and> game_over s1 \<and> outcome_of s1 = Lost"
    by blast+
  from left_click_same_layout [OF wf1 left.hyps(2)] have l: "same_layout s1 s2" .
  then have wf2: "well_formed s2" and n2: "N s2 = N s1" by (simp_all add: same_layout_def)
  have "is_mine (cell_of s2 q) \<and> game_over s2 \<and> outcome_of s2 = Lost"
    if q: "in_grid (N s) q" and f: "is_flagged (cell_of s2 q)" and r: "is_revealed (cell_of s2 q)"
    for q
  proof -
    from q have q1: "in_grid (N s1) q" by (simp add: n1)
    note c = left_click_cells [OF wf1 left.hyps(2) q1]
    from l q1 have m: "is_mine (cell_of s2 q) = is_mine (cell_of s1 q)"
      unfolding same_layout_def by blast
    from c(1) f have f1: "is_flagged (cell_of s1 q)" by simp
    show ?thesis
    proof (cases "is_revealed (cell_of s1 q)")
      case True
      from inv [OF q f1 True] have i: "is_mine (cell_of s1 q)" "game_over s1" "outcome_of s1 = Lost"
        by simp_all
      from i(2) left.hyps(2) have "s2 = s1" by (simp add: left_click_def)
      with i show ?thesis by simp
    next
      case False
      with c(3) f1 r have "is_mine (cell_of s1 q)" "outcome_of s2 = Lost" by simp_all
      moreover from this(2) have "game_over s2"
        by (auto simp: outcome_of_def split: if_splits)
      ultimately show ?thesis using m by simp
    qed
  qed
  with wf2 n2 n1 show ?case by simp
next
  case (right s s1 row col s2)
  then have wf1: "well_formed s1" and n1: "N s1 = N s"
    and inv: "\<And>q. in_grid (N s) q \<Longrightarrow> is_flagged (cell_of s1 q) \<Longrightarrow> is_revealed (cell_of s1 q)
                 \<Longrightarrow> is_mine (cell_of s1 q) \<and> game_over s1 \<and> outcome_of s1 = Lost"
    by blast+
  from right_click_same_layout [OF wf1 right.hyps(2)] have l: "same_layout s1 s2" .
  then have wf2: "well_formed s2" and n2: "N s2 = N s1" by (simp_all add: same_layout_def)
  have "is_mine (cell_of s2 q) \<and> game_over s2 \<and> outcome_of s2 = Lost"
    if q: "in_grid (N s) q" and f: "is_flagged (cell_of s2 q)" and r: "is_revealed (cell_of s2 q)"
    for q
  proof -
    from q have q1: "in_grid (N s1) q" by (simp add: n1)
    note c = right_click_cells [OF wf1 right.hyps(2) q1]
    from c r have r1: "is_revealed (cell_of s1 q)" by simp
    with c f have f1: "is_flagged (cell_of s1 q)" by simp
    from inv [OF q f1 r1] have i: "is_mine (cell_of s1 q)" "game_over s1" "outcome_of s1 = Lost"
      by simp_all
    from i(2) right.hyps(2) have "s2 = s1" by (simp add: right_click_def)
    with i show ?thesis by simp
  qed
  with wf2 n2 n1 show ?case by simp
qed

lemma reachable_flags_apart:
  assumes "reachable s"
  shows "well_formed s"
    and "\<And>q. in_grid (N s) q \<Longrightarrow> is_flagged (cell_of s q) \<Longrightarrow> is_revealed (cell_of s q)
           \<Longrightarrow> is_mine (cell_of s q) \<and> game_over s \<and> outcome_of s = Lost"
proof -
  from assms obtain n m mp s0 where smp: "is_sample (all_positions n) m mp"
    and run: "MinesweeperWindow_init n m mp = Inr s0" and p: "plays s0 s"
    unfolding reachable_def by blast
  from MinesweeperWindow_init_cells [OF smp] run have wf0: "well_formed s0"
    and c0: "\<forall>q. in_grid (N s0) q \<longrightarrow> \<not> is_revealed (cell_of s0 q)"
    by auto
  from plays_flags_apart [OF p wf0 c0]
  show "well_formed s"
    and "\<And>q. in_grid (N s) q \<Longrightarrow> is_flagged (cell_of s q) \<Longrightarrow> is_revealed (cell_of s q)
           \<Longrightarrow> is_mine (cell_of s q) \<and> game_over s \<and> outcome_of s = Lost"
    by (simp_all del: split_paired_All)
qed

text \<open>
  The board of \<open>loss_example\<close> as \<^verbatim>\<open>MinesweeperWindow(2, 2)\<close> builds it, before the two
  flags are set, and the state after the left click at (0, 0) on \<open>loss_example\<close>.
\<close>

definition loss_example_start :: game where
  "loss_example_start =
     \<lparr>N = 2, M = 2, game_over = False,
      board =
        [[\<lparr>is_mine = True, adjacent_mines = - 1, is_revealed = False, is_flagged = False\<rparr>,
          \<lparr>is_mine = False, adjacent_mines = 2, is_revealed = False, is_flagged = False\<rparr>],
         [\<lparr>is_mine = False, adjacent_mines = 2, is_revealed = False, is_flagged = False\<rparr>,
          \<lparr>is_mine = True, adjacent_mines = - 1, is_revealed = False, is_flagged = False\<rparr>]],
      info_label = ''Be careful!''\<rparr>"

definition loss_example_lost :: game where
  "loss_example_lost =
     \<lparr>N = 2, M = 2, game_over = True,
      board =
        [[\<lparr>is_mine = True, adjacent_mines = - 1, is_revealed = True, is_flagged = False\<rparr>,
          \<lparr>is_mine = False, adjacent_mines = 2, is_revealed = False, is_flagged = True\<rparr>],
         [\<lparr>is_mine = False, adjacent_mines = 2, is_revealed = False, is_flagged = False\<rparr>,
          \<lparr>is_mine = True, adjacent_mines = - 1, is_revealed = True, is_flagged = True\<rparr>]],
      info_label = ''You hit a mine! Game Over!''\<rparr>"

lemma loss_example_start_generated:
  "MinesweeperWindow_init 2 2 [(0, 0), (1, 1)] = Inr loss_example_start"
  by (simp add: MinesweeperWindow_init_def place_mines_def place_mine_def
      calculate_adjacency_def adjacency_cell_def count_adjacent_def count_neighbour_def
      all_positions_def neighbours_def py_range_def locate_def py_index_def
      cell_at.simps cell_upd.simps blank_cell_def loss_example_start_def Let_def
      numeral_2_eq_2 upto.simps)

lemma loss_example_flags:
  "\<exists>s1. right_click loss_example_start 0 1 = Inr s1 \<and> right_click s1 1 1 = Inr loss_example"
  by (simp add: right_click_def locate_def py_index_def cell_at.simps cell_upd.simps
      loss_example_start_def loss_example_def)

lemma loss_example_click: "left_click loss_example 0 0 = Inr loss_example_lost"
  by (simp add: left_click_def show_all_mines_def show_mine_def
      all_positions_def py_range_def locate_def py_index_def
      cell_at.simps cell_upd.simps loss_example_def loss_example_lost_def Let_def upto.simps)

lemma loss_example_reachable:
  shows "reachable loss_example" and "reachable loss_example_lost"
proof -
  have smp: "is_sample (all_positions 2) 2 [(0, 0), (1, 1)]"
    by (simp add: is_sample_def set_all_positions in_grid_def)
  from loss_example_flags obtain s1 where
    r1: "right_click loss_example_start 0 1 = Inr s1" and r2: "right_click s1 1 1 = Inr loss_example"
    by blast
  have p: "plays loss_example_start loss_example"
    by (rule plays.right [OF plays.right [OF plays.start r1] r2])
  have par: "(0::int) < 2 \<and> (0::int) \<le> 2 \<and> (2::int) < 2 * 2" by simp
  with smp loss_example_start_generated p show "reachable loss_example"
    unfolding reachable_def by blast
  from par smp loss_example_start_generated plays.left [OF p loss_example_click]
  show "reachable loss_example_lost"
    unfolding reachable_def by blast
qed

text \<open>
  C1, as the code has it. In every reachable state: a right click never changes what
  is revealed and never changes the flag of a revealed cell, so a revealed cell never
  becomes flagged; a left click never changes a flag, and it reveals a flagged cell
  only when that cell holds a mine and the click has lost the game (all mines are then
  shown, flagged or not); and so a cell that is both flagged and revealed is a mine of
  a lost game: no other reachable state has such a cell.
\<close>

theorem flag_reveal_exclusion:
  assumes "reachable s"
  shows "(\<forall>q. in_grid (N s) q \<longrightarrow> is_flagged (cell_of s q) \<longrightarrow> is_revealed (cell_of s q) \<longrightarrow>
            is_mine (cell_of s q) \<and> outcome_of s = Lost)
    \<and> (\<forall>row col s' q. right_click s row col = Inr s' \<longrightarrow> in_grid (N s) q \<longrightarrow>
          is_revealed (cell_of s' q) = is_revealed (cell_of s q)
          \<and> (is_revealed (cell_of s q) \<longrightarrow>
                is_flagged (cell_of s' q) = is_flagged (cell_of s q)))
    \<and> (\<forall>row col s' q. left_click s row col = Inr s' \<longrightarrow> in_grid (N s) q \<longrightarrow>
          is_flagged (cell_of s' q) = is_flagged (cell_of s q)
          \<and> (is_flagged (cell_of s q) \<longrightarrow> \<not> is_revealed (cell_of s q) \<longrightarrow>
                is_revealed (cell_of s' q) \<longrightarrow>
                is_mine (cell_of s q) \<and> outcome_of s' = Lost))"
proof (intro conjI allI impI)
  fix q assume "in_grid (N s) q" "is_flagged (cell_of s q)" "is_revealed (cell_of s q)"
  with reachable_flags_apart(2) [OF assms]
  show "is_mine (cell_of s q)" "outcome_of s = Lost" by blast+
next
  fix row col s' q assume c: "right_click s row col = Inr s'" and q: "in_grid (N s) q"
  from right_click_cells [OF reachable_flags_apart(1) [OF assms] c q]
  show "is_revealed (cell_of s' q) = is_revealed (cell_of s q)" by simp
  assume "is_revealed (cell_of s q)"
  with right_click_cells [OF reachable_flags_apart(1) [OF assms] c q]
  show "is_flagged (cell_of s' q) = is_flagged (cell_of s q)" by simp
next
  fix row col s' q assume c: "left_click s row col = Inr s'" and q: "in_grid (N s) q"
  note l = left_click_cells [OF reachable_flags_apart(1) [OF assms] c q]
  from l show "is_flagged (cell_of s' q) = is_flagged (cell_of s q)" by simp
  assume "is_flagged (cell_of s q)" "\<not> is_revealed (cell_of s q)" "is_revealed (cell_of s' q)"
  with l show "is_mine (cell_of s q)" "outcome_of s' = Lost" by simp_all
qed

theorem flag_reveal_exclusion_witness:
  "reachable loss_example \<and> in_grid (N loss_example) (0, 1)
   \<and> is_flagged (cell_of loss_example (0, 1)) \<and> \<not> is_revealed (cell_of loss_example (0, 1))
   \<and> \<not> is_mine (cell_of loss_example (0, 1))
   \<and> left_click loss_example 0 0 = Inr loss_example_lost
   \<and> is_flagged (cell_of loss_example_lost (0, 1))
   \<and> \<not> is_revealed (cell_of loss_example_lost (0, 1))"
proof -
  have g: "in_grid (N loss_example) (0, 1)" by (simp add: loss_example_def in_grid_def)
  have c: "is_flagged (cell_of loss_example (0, 1))" "\<not> is_revealed (cell_of loss_example (0, 1))"
    "\<not> is_mine (cell_of loss_example (0, 1))"
    by (simp_all add: loss_example_def cell_of_def)
  from flag_reveal_exclusion [OF loss_example_reachable(1)] loss_example_click g
  have "is_flagged (cell_of loss_example_lost (0, 1)) = is_flagged (cell_of loss_example (0, 1))
          \<and> (is_flagged (cell_of loss_example (0, 1)) \<longrightarrow>
                \<not> is_revealed (cell_of loss_example (0, 1)) \<longrightarrow>
                is_revealed (cell_of loss_example_lost (0, 1)) \<longrightarrow>
                is_mine (cell_of loss_example (0, 1)) \<and> outcome_of loss_example_lost = Lost)"
    by blast
  with c g loss_example_reachable(1) loss_example_click show ?thesis by blast
qed

text \<open>
  The claim as stated fails: on the reachable state \<open>loss_example\<close> the mine at (1, 1)
  is flagged and not revealed; the left click at (0, 0) hits a mine, and in the state
  it leaves (reachable too) the cell at (1, 1) is revealed and still flagged.
\<close>

theorem flagged_mine_revealed_counterexample:
  "reachable loss_example \<and> in_grid (N loss_example) (1, 1)
   \<and> is_flagged (cell_of loss_example (1, 1)) \<and> \<not> is_revealed (cell_of loss_example (1, 1))
   \<and> left_click loss_example 0 0 = Inr loss_example_lost
   \<and> reachable loss_example_lost
   \<and> is_flagged (cell_of loss_example_lost (1, 1))
   \<and> is_revealed (cell_of loss_example_lost (1, 1))"
  using loss_example_reachable loss_example_click
  by (simp add: loss_example_def loss_example_lost_def in_grid_def cell_of_def)

section \<open>The visits of the flood fill\<close>

lemma card_grid: "card {q. in_grid n q} = nat n * nat n"
proof -
  have "{q. in_grid n q} = set (all_positions n)"
    by (auto simp: set_all_positions)
  then show ?thesis
    by (simp add: distinct_card [OF distinct_all_positions] length_all_positions)
qed

lemma unrevealed_less:
  assumes "well_formed s" and "in_grid (N s) p" and "is_revealed (cell_of s p)"
  shows "Suc (unrevealed (board s)) \<le> nat (N s) * nat (N s)"
proof -
  have fin: "finite {q. in_grid (N s) q}"
    using card_grid [of "N s"] assms(2)
    by (metis List.finite_set set_all_positions mem_Collect_eq subsetI finite_subset)
  have "{q. in_grid (N s) q \<and> \<not> is_revealed (cell_of s q)} \<subset> {q. in_grid (N s) q}"
    using assms(2,3) by blast
  from psubset_card_mono [OF fin this]
  show ?thesis
    by (simp add: unrevealed_def count_cells_card [OF assms(1)] card_grid)
qed

lemma reveals_monotone:
  assumes "reveals s s'" and "in_grid (N s) q" and "is_revealed (cell_of s q)"
  shows "is_revealed (cell_of s' q)"
  using reveals_cell [OF assms(1,2)] assms(3) by auto

lemma flood_loop_visits:
  assumes "well_formed s"
    and "distinct (stack @ visited)"
    and "\<forall>p \<in> set stack \<union> set visited. in_grid (N s) p \<longrightarrow> is_revealed (cell_of s p)"
    and "length visited + length stack + unrevealed (board s) \<le> bound"
  shows "\<exists>s' more. flood_loop s stack visited = Inr (s', visited @ more)
           \<and> reveals s s' \<and> distinct (visited @ more) \<and> length (visited @ more) \<le> bound
           \<and> (\<forall>q \<in> set more. q \<in> set stack
                 \<or> in_grid (N s) q \<and> \<not> is_revealed (cell_of s q) \<and> is_revealed (cell_of s' q))
           \<and> (stack \<noteq> [] \<longrightarrow> more \<noteq> [] \<and> hd more = hd stack)"
  using assms
proof (induction s stack visited rule: flood_loop.induct)
  case (1 s visited)
  then show ?case by (simp add: reveals_refl)
next
  case (2 s r c stack visited)
  note wf = "2.prems"(1)
  have g: "\<forall>q \<in> set (neighbours (N s) r c). in_grid (N s) q"
    by (simp add: neighbours_in_grid)
  from flood_neighbours_cells [OF wf g, of stack] obtain b1 new where
    one: "for_each (neighbours (N s) r c) flood_neighbour (s, stack)
            = Inr (s\<lparr>board := b1\<rparr>, new @ stack)"
    and wf1: "well_formed (s\<lparr>board := b1\<rparr>)"
    and cells: "\<forall>q. in_grid (N s) q \<longrightarrow>
               cell_of (s\<lparr>board := b1\<rparr>) q
                 = (if q \<in> set (neighbours (N s) r c) \<and> fillable s q
                    then (cell_of s q)\<lparr>is_revealed := True\<rparr> else cell_of s q)"
    and dnew: "distinct new"
    and new: "set new = {q \<in> set (neighbours (N s) r c).
                          fillable s q \<and> adjacent_mines (cell_of s q) = 0}"
    by blast
  define s1 where "s1 = s\<lparr>board := b1\<rparr>"
  have n1: "N s1 = N s" by (simp add: s1_def)
  have r1: "reveals s s1"
  proof -
    have "cell_of s1 q = cell_of s q
           \<or> fillable s q \<and> cell_of s1 q = (cell_of s q)\<lparr>is_revealed := True\<rparr>"
      if "in_grid (N s) q" for q
      using cells [rule_format, OF that] by (simp add: s1_def)
    with wf1 show ?thesis by (simp add: reveals_def s1_def)
  qed
  have newg: "in_grid (N s) q \<and> \<not> is_revealed (cell_of s q) \<and> is_revealed (cell_of s1 q)"
    if "q \<in> set new" for q
  proof -
    from that new have q: "q \<in> set (neighbours (N s) r c)" "fillable s q" by auto
    with g have qg: "in_grid (N s) q" by blast
    from cells [rule_format, OF qg] q qg show ?thesis by (simp add: s1_def fillable_def)
  qed
  have old: "in_grid (N s) p \<longrightarrow> is_revealed (cell_of s p)"
    if "p \<in> set ((r, c) # stack) \<union> set visited" for p
    using "2.prems"(3) that by blast
  have d1: "distinct ((new @ stack) @ visited @ [(r, c)])"
  proof -
    have "q \<notin> set ((r, c) # stack) \<union> set visited" if "q \<in> set new" for q
      using newg [OF that] old [of q] by blast
    with dnew "2.prems"(2) show ?thesis by auto
  qed
  have m1: "\<forall>p \<in> set (new @ stack) \<union> set (visited @ [(r, c)]).
              in_grid (N s1) p \<longrightarrow> is_revealed (cell_of s1 p)"
  proof (intro ballI impI)
    fix p assume p: "p \<in> set (new @ stack) \<union> set (visited @ [(r, c)])"
      and pg: "in_grid (N s1) p"
    show "is_revealed (cell_of s1 p)"
    proof (cases "p \<in> set new")
      case True
      from newg [OF this] show ?thesis by simp
    next
      case False
      with p have "p \<in> set ((r, c) # stack) \<union> set visited" by auto
      from old [OF this] pg n1 have "is_revealed (cell_of s p)" by simp
      from reveals_monotone [OF r1 _ this] pg n1 show ?thesis by simp
    qed
  qed
  from flood_neighbours_measure [OF one]
  have "unrevealed (board s1) + length (new @ stack) \<le> unrevealed (board s) + length stack"
    by (simp add: s1_def)
  with "2.prems"(4)
  have b1: "length (visited @ [(r, c)]) + length (new @ stack) + unrevealed (board s1) \<le> bound"
    by simp
  from "2.IH" [OF one [folded s1_def] refl wf1 [folded s1_def] d1 m1 b1]
  obtain s' more where
    rest: "flood_loop s1 (new @ stack) (visited @ [(r, c)])
             = Inr (s', (visited @ [(r, c)]) @ more)"
    and r2: "reveals s1 s'"
    and dist: "distinct ((visited @ [(r, c)]) @ more)"
    and len: "length ((visited @ [(r, c)]) @ more) \<le> bound"
    and more: "\<forall>q \<in> set more. q \<in> set (new @ stack)
                 \<or> in_grid (N s1) q \<and> \<not> is_revealed (cell_of s1 q)
                   \<and> is_revealed (cell_of s' q)"
    by blast
  have run: "flood_loop s ((r, c) # stack) visited = Inr (s', visited @ ((r, c) # more))"
    using one rest by (simp add: s1_def)
  have "q \<in> set ((r, c) # stack)
          \<or> in_grid (N s) q \<and> \<not> is_revealed (cell_of s q) \<and> is_revealed (cell_of s' q)"
    if q: "q \<in> set ((r, c) # more)" for q
  proof (cases "q = (r, c) \<or> q \<in> set stack")
    case True
    then show ?thesis by auto
  next
    case False
    with q have qm: "q \<in> set more" by simp
    show ?thesis
    proof (cases "q \<in> set new")
      case True
      from newg [OF this] have a: "in_grid (N s) q" "\<not> is_revealed (cell_of s q)"
        "is_revealed (cell_of s1 q)" by simp_all
      from reveals_monotone [OF r2 _ a(3)] a(1) n1 have "is_revealed (cell_of s' q)" by simp
      with a show ?thesis by simp
    next
      case notnew: False
      with more qm False have a: "in_grid (N s1) q" "\<not> is_revealed (cell_of s1 q)"
        "is_revealed (cell_of s' q)" by auto
      from a(1) n1 have qg: "in_grid (N s) q" by simp
      from reveals_monotone [OF r1 qg] a(2) have "\<not> is_revealed (cell_of s q)" by blast
      with qg a(3) show ?thesis by simp
    qed
  qed
  with run reveals_trans [OF r1 r2] dist len show ?case
    by (intro exI [of _ s'] exI [of _ "(r, c) # more"]) simp
qed

text \<open>
  The state \<^verbatim>\<open>left_click\<close> hands to \<^verbatim>\<open>_flood_fill\<close> on the board of \<open>win_example\<close>: the
  cell at (0, 0) is revealed.
\<close>

definition win_example_opened :: game where
  "win_example_opened =
     win_example\<lparr>board := cell_upd (board win_example) (0, 0) (\<lambda>cl. cl\<lparr>is_revealed := True\<rparr>)\<rparr>"

lemma win_example_flood:
  "\<exists>s'. flood_loop win_example_opened [(0, 0)] []
          = Inr (s', [(0, 0), (1, 0), (2, 0), (0, 1), (0, 2)])"
  by (simp add: win_example_opened_def flood_neighbour_def
      neighbours_def py_range_def locate_def py_index_def
      cell_at.simps cell_upd.simps win_example_def Let_def upto.simps)

text \<open>
  C10. On a board of the right shape \<^verbatim>\<open>_flood_fill\<close> returns from every start. Where
  the start names a revealed cell, as in the one call of \<^verbatim>\<open>left_click\<close>, no cell is
  popped twice, the first cell popped is the start, every other cell popped is a cell
  of the grid that was not revealed before the call and is revealed after it, and at
  most \<open>N * N\<close> cells are popped.
\<close>

theorem flood_fill_visits:
  assumes "well_formed s"
  shows "(\<exists>s'. flood_fill s row col = Inr s')
    \<and> (\<forall>p. locate (board s) row col = Inr p \<longrightarrow> is_revealed (cell_at (board s) p) \<longrightarrow>
          (\<exists>s' visited. flood_loop s [(row, col)] [] = Inr (s', visited)
             \<and> flood_fill s row col = Inr s'
             \<and> distinct visited \<and> int (length visited) \<le> N s * N s
             \<and> visited \<noteq> [] \<and> hd visited = (row, col)
             \<and> (\<forall>q \<in> set (tl visited).
                   in_grid (N s) q \<and> \<not> is_revealed (cell_of s q)
                   \<and> is_revealed (cell_of s' q))))"
proof (intro conjI allI impI)
  from flood_fill_reveals [OF assms] show "\<exists>s'. flood_fill s row col = Inr s'" by blast
next
  fix p assume loc: "locate (board s) row col = Inr p"
    and rev: "is_revealed (cell_at (board s) p)"
  from locate_some_in_grid [OF assms loc] obtain p' where
    pg: "in_grid (N s) p'" and p: "p = (nat (fst p'), nat (snd p'))"
    by blast
  from rev have rev': "is_revealed (cell_of s p')"
    unfolding p using cell_at_cell_of [of s "fst p'" "snd p'"] by simp
  have start: "is_revealed (cell_of s (row, col))" if "in_grid (N s) (row, col)"
  proof -
    from locate_in_grid [OF assms that] loc have "p = (nat row, nat col)" by simp
    with rev show ?thesis by (simp add: cell_at_cell_of)
  qed
  from unrevealed_less [OF assms pg rev']
  have bound: "length ([] :: (int \<times> int) list) + length [(row, col)] + unrevealed (board s)
                 \<le> nat (N s) * nat (N s)"
    by simp
  have d: "distinct ([(row, col)] @ [])" by simp
  have m: "\<forall>p \<in> set [(row, col)] \<union> set []. in_grid (N s) p \<longrightarrow> is_revealed (cell_of s p)"
    using start by simp
  from flood_loop_visits [OF assms d m bound] obtain s' more where
    run: "flood_loop s [(row, col)] [] = Inr (s', more)"
    and dist: "distinct more" and len: "length more \<le> nat (N s) * nat (N s)"
    and cells: "\<forall>q \<in> set more. q \<in> set [(row, col)]
                 \<or> in_grid (N s) q \<and> \<not> is_revealed (cell_of s q) \<and> is_revealed (cell_of s' q)"
    and hd: "more \<noteq> []" "hd more = (row, col)"
    by auto
  from pg have "0 \<le> N s" by (simp add: in_grid_def)
  with len have len': "int (length more) \<le> N s * N s"
    by (metis of_nat_le_iff of_nat_mult nat_0_le)
  have "in_grid (N s) q \<and> \<not> is_revealed (cell_of s q) \<and> is_revealed (cell_of s' q)"
    if "q \<in> set (tl more)" for q
  proof -
    from hd that dist have "q \<noteq> (row, col)" "q \<in> set more"
      by (cases more; auto)+
    with cells show ?thesis by auto
  qed
  with run dist len' hd
  show "\<exists>s' visited. flood_loop s [(row, col)] [] = Inr (s', visited)
             \<and> flood_fill s row col = Inr s'
             \<and> distinct visited \<and> int (length visited) \<le> N s * N s
             \<and> visited \<noteq> [] \<and> hd visited = (row, col)
             \<and> (\<forall>q \<in> set (tl visited).
                   in_grid (N s) q \<and> \<not> is_revealed (cell_of s q)
                   \<and> is_revealed (cell_of s' q))"
    by (intro exI [of _ s'] exI [of _ more]) (simp add: flood_fill_def)
qed

theorem flood_fill_visits_witness:
  "well_formed win_example_opened
   \<and> locate (board win_example_opened) 0 0 = Inr (0, 0)
   \<and> is_revealed (cell_at (board win_example_opened) (0, 0))
   \<and> (\<exists>s'. flood_loop win_example_opened [(0, 0)] []
               = Inr (s', [(0, 0), (1, 0), (2, 0), (0, 1), (0, 2)])
          \<and> flood_fill win_example_opened 0 0 = Inr s'
          \<and> is_revealed (cell_of s' (0, 2)))"
proof -
  have h: "well_formed win_example_opened"
    "locate (board win_example_opened) 0 0 = Inr (0, 0)"
    "is_revealed (cell_at (board win_example_opened) (0, 0))"
    by (simp_all add: win_example_opened_def win_example_def well_formed_def locate_def
        py_index_def cell_at.simps cell_upd.simps)
  from flood_fill_visits [OF h(1), of 0 0] h(2,3) obtain s' visited where
    run: "flood_loop win_example_opened [(0, 0)] [] = Inr (s', visited)"
    and fill: "flood_fill win_example_opened 0 0 = Inr s'"
    and cells: "\<forall>q \<in> set (tl visited).
                   in_grid (N win_example_opened) q \<and> \<not> is_revealed (cell_of win_example_opened q)
                   \<and> is_revealed (cell_of s' q)"
    by blast
  from win_example_flood run have v: "visited = [(0, 0), (1, 0), (2, 0), (0, 1), (0, 2)]"
    by auto
  with cells have "is_revealed (cell_of s' (0, 2))" by simp
  with h run fill v show ?thesis by blast
qed

end
